theory Spec2Isabelle
  imports Main "HOL-Library.Multiset"
begin

section \<open>Pieces (the Piece class)\<close>

text \<open>
  A piece type is a JavaScript value used as a property key: a string, or
  \<open>undefined\<close> (what \<open>pieceSequence[i]\<close> yields beyond the end of the array). The
  seven tetromino letters and the 'X' that penalty rows are filled with have names
  of their own. A board cell holds the number 0 or such a value.
\<close>

datatype tag = Str string | Undefined

abbreviation TI :: tag where "TI \<equiv> Str ''I''"

abbreviation TO :: tag where "TO \<equiv> Str ''O''"

abbreviation TT :: tag where "TT \<equiv> Str ''T''"

abbreviation TS :: tag where "TS \<equiv> Str ''S''"

abbreviation TZ :: tag where "TZ \<equiv> Str ''Z''"

abbreviation TJ :: tag where "TJ \<equiv> Str ''J''"

abbreviation TL :: tag where "TL \<equiv> Str ''L''"

abbreviation TX :: tag where "TX \<equiv> Str ''X''"

datatype cell = Zero | Tag tag

type_synonym shape = "nat list list"

type_synonym board = "cell list list"

text \<open>
  What \<open>getShape\<close> returns is one of the matrices of its object literal or, for a
  key that the literal inherits, the member of \<open>Object.prototype\<close> of that name.
\<close>

datatype shapeval = Matrix shape | Inherited string

record piece =
  ptype :: tag
  px :: int
  py :: int
  shape :: shapeval

text \<open>The property key that \<open>shapes[type]\<close> converts \<open>type\<close> to.\<close>

fun propertyKey :: "tag \<Rightarrow> string" where
  "propertyKey (Str s) = s"
| "propertyKey Undefined = ''undefined''"

text \<open>The seven own properties of the object literal \<open>shapes\<close> of \<open>getShape\<close>.\<close>

definition ownShapes :: "(string \<times> shape) list" where
  "ownShapes =
     [(''I'', [[0, 0, 0, 0], [1, 1, 1, 1], [0, 0, 0, 0], [0, 0, 0, 0]]),
      (''O'', [[1, 1], [1, 1]]),
      (''T'', [[0, 1, 0], [1, 1, 1], [0, 0, 0]]),
      (''S'', [[0, 1, 1], [1, 1, 0], [0, 0, 0]]),
      (''Z'', [[1, 1, 0], [0, 1, 1], [0, 0, 0]]),
      (''J'', [[1, 0, 0], [1, 1, 1], [0, 0, 0]]),
      (''L'', [[0, 0, 1], [1, 1, 1], [0, 0, 0]])]"

text \<open>
  An object literal inherits the properties of \<open>Object.prototype\<close>. Each is listed
  with its own \<open>length\<close>: the number of parameters of a function, and none for
  \<open>__proto__\<close>, whose value here is \<open>Object.prototype\<close> itself.
\<close>

definition objectPrototype :: "(string \<times> nat option) list" where
  "objectPrototype =
     [(''constructor'', Some 1),
      (''hasOwnProperty'', Some 1),
      (''isPrototypeOf'', Some 1),
      (''propertyIsEnumerable'', Some 1),
      (''toLocaleString'', Some 0),
      (''toString'', Some 0),
      (''valueOf'', Some 0),
      (''__defineGetter__'', Some 2),
      (''__defineSetter__'', Some 2),
      (''__lookupGetter__'', Some 1),
      (''__lookupSetter__'', Some 1),
      (''__proto__'', None)]"

text \<open>
  \<open>shapes[type]\<close>: an own property first, then an inherited one, else \<open>undefined\<close>
  (\<open>None\<close>).
\<close>

definition shapes :: "tag \<Rightarrow> shapeval option" where
  "shapes t =
     (case map_of ownShapes (propertyKey t) of
        Some s \<Rightarrow> Some (Matrix s)
      | None \<Rightarrow>
          (case map_of objectPrototype (propertyKey t) of
             Some l \<Rightarrow> Some (Inherited (propertyKey t))
           | None \<Rightarrow> None))"

text \<open>
  \<open>return shapes[type] || shapes['I']\<close>: arrays, functions and objects are all
  truthy, so the I matrix is returned only where the lookup finds nothing.
\<close>

definition getShape :: "tag \<Rightarrow> shapeval" where
  "getShape t =
     (case shapes t of
        Some v \<Rightarrow> v
      | None \<Rightarrow> Matrix [[0, 0, 0, 0], [1, 1, 1, 1], [0, 0, 0, 0], [0, 0, 0, 0]])"

text \<open>The constructor \<open>new Piece(type)\<close>.\<close>

definition Piece :: "tag \<Rightarrow> piece" where
  "Piece t = \<lparr>ptype = t, px = 3, py = 0, shape = getShape t\<rparr>"

text \<open>
  \<open>rotate()\<close> builds a new piece; \<open>newShape[col][rows - 1 - row] = shape[row][col]\<close>
  makes column \<open>col\<close> of the old shape, read bottom-up, row \<open>col\<close> of the new one.
  Reading \<open>shape[0].length\<close> is a TypeError (\<open>None\<close>) when \<open>shape[0]\<close> is
  \<open>undefined\<close>: for an empty matrix, and for an inherited member, which has no
  property 0. A cell read beyond the end of a row is \<open>undefined\<close>, which is falsy
  like 0.
\<close>

definition Piece_rotate :: "piece \<Rightarrow> piece option" where
  "Piece_rotate p =
     (let rotated = (Piece (ptype p))\<lparr>px := px p, py := py p\<rparr> in
      if ptype p = TO then Some (rotated\<lparr>shape := shape p\<rparr>)
      else (case shape p of
              Inherited k \<Rightarrow> None
            | Matrix [] \<Rightarrow> None
            | Matrix (r0 # rest) \<Rightarrow>
                Some (rotated\<lparr>shape := Matrix
                  (map (\<lambda>col. map (\<lambda>r. if col < length r then r ! col else 0) (rev (r0 # rest)))
                       [0 ..< length r0])\<rparr>)))"


section \<open>Boards\<close>

definition createEmptyBoard :: board where
  "createEmptyBoard = replicate 20 (replicate 10 Zero)"

text \<open>
  Reading \<open>board[r][c]\<close>: a missing row is \<open>undefined\<close> and indexing it is a
  TypeError (\<open>None\<close>); a missing cell of an existing row reads as \<open>undefined\<close>.
\<close>

definition readCell :: "board \<Rightarrow> nat \<Rightarrow> nat \<Rightarrow> cell option" where
  "readCell b r c =
     (if r < length b
      then Some (if c < length (b ! r) then b ! r ! c else Tag Undefined)
      else None)"

text \<open>
  Writing \<open>board[r][c] = v\<close>: a missing row is a TypeError; writing beyond the end of
  an existing row extends it, the cells in between reading as \<open>undefined\<close>.
\<close>

definition writeCell :: "board \<Rightarrow> nat \<Rightarrow> nat \<Rightarrow> cell \<Rightarrow> board option" where
  "writeCell b r c v =
     (if r < length b
      then Some (b[r := (if c < length (b ! r) then (b ! r)[c := v]
                         else b ! r @ replicate (c - length (b ! r)) (Tag Undefined) @ [v])])
      else None)"

text \<open>
  The \<open>(row, col)\<close> pairs with a truthy entry, in the order in which the nested
  \<open>for\<close> loops of \<open>lockPiece\<close> and \<open>isValidPosition\<close> visit them.
\<close>

definition filledCells :: "shape \<Rightarrow> (nat \<times> nat) list" where
  "filledCells s =
     concat (map (\<lambda>(row, r). map (\<lambda>(col, v). (row, col))
                                 (filter (\<lambda>(col, v). v \<noteq> 0) (enumerate 0 r)))
                 (enumerate 0 s))"

text \<open>
  The filled cells that the nested loops over \<open>piece.shape\<close> visit. For an
  inherited member the outer bound \<open>piece.shape.length\<close> is its \<open>length\<close>: with 0
  or \<open>undefined\<close> the loop body never runs, otherwise \<open>piece.shape[0].length\<close>
  reads a property of \<open>undefined\<close>, a TypeError (\<open>None\<close>).
\<close>

definition cellsOf :: "shapeval \<Rightarrow> (nat \<times> nat) list option" where
  "cellsOf v =
     (case v of
        Matrix s \<Rightarrow> Some (filledCells s)
      | Inherited k \<Rightarrow>
          (case map_of objectPrototype k of
             Some (Some (Suc n)) \<Rightarrow> None
           | _ \<Rightarrow> Some []))"

text \<open>
  The loop body of \<open>isValidPosition(board, piece, x, y)\<close> over the filled cells: false
  at the first one out of bounds or on a non-zero board cell. The board (\<open>None\<close> is
  \<open>null\<close>) is read only after the bounds check.
\<close>

fun validCells :: "board option \<Rightarrow> int \<Rightarrow> int \<Rightarrow> (nat \<times> nat) list \<Rightarrow> bool option" where
  "validCells bo x y [] = Some True"
| "validCells bo x y ((row, col) # cs) =
     (let boardRow = y + int row; boardCol = x + int col in
      if boardRow < 0 \<or> boardRow \<ge> 20 \<or> boardCol < 0 \<or> boardCol \<ge> 10 then Some False
      else (case bo of
              None \<Rightarrow> None
            | Some b \<Rightarrow>
                (case readCell b (nat boardRow) (nat boardCol) of
                   None \<Rightarrow> None
                 | Some v \<Rightarrow> if v \<noteq> Zero then Some False else validCells bo x y cs)))"

definition isValidPosition :: "board option \<Rightarrow> piece option \<Rightarrow> int \<Rightarrow> int \<Rightarrow> bool option" where
  "isValidPosition bo po x y =
     (case po of
        None \<Rightarrow> None
      | Some p \<Rightarrow>
          (case cellsOf (shape p) of
             None \<Rightarrow> None
           | Some cs \<Rightarrow> validCells bo x y cs))"

definition isLineFull :: "cell list \<Rightarrow> bool" where
  "isLineFull line = list_all (\<lambda>c. c \<noteq> Zero) line"

text \<open>
  The loop of \<open>clearLines\<close>, from \<open>row = 19\<close> down: a full row is spliced out, a row
  of ten zeros is put on top, and \<open>row++\<close> followed by the loop's \<open>row--\<close> looks at
  the same index again. \<open>isLineFull(board[row])\<close> on a missing row is a TypeError
  (\<open>None\<close>).
\<close>

definition fullRows :: "board \<Rightarrow> nat" where
  "fullRows b = length (filter isLineFull b)"

lemma isLineFull_zeros [simp]: "\<not> isLineFull (replicate 10 Zero)"
  by (simp add: isLineFull_def list_all_iff)

lemma fullRows_splice:
  assumes "i < length b" and "isLineFull (b ! i)"
  shows "fullRows (replicate 10 Zero # (take i b @ drop (Suc i) b)) < fullRows b"
proof -
  have "b = take i b @ b ! i # drop (Suc i) b"
    using assms(1) by (simp add: id_take_nth_drop)
  then have "fullRows b = fullRows (take i b @ b ! i # drop (Suc i) b)"
    by simp
  also have "\<dots> = Suc (fullRows (take i b @ drop (Suc i) b))"
    using assms(2) by (simp add: fullRows_def)
  finally show ?thesis
    by (simp add: fullRows_def)
qed

function clearLinesLoop :: "board \<Rightarrow> int \<Rightarrow> nat \<Rightarrow> (board \<times> nat) option" where
  "clearLinesLoop b row n =
     (if row < 0 then Some (b, n)
      else if nat row \<ge> length b then None
      else if isLineFull (b ! nat row)
      then clearLinesLoop (replicate 10 Zero # (take (nat row) b @ drop (Suc (nat row)) b))
             row (Suc n)
      else clearLinesLoop b (row - 1) n)"
  by pat_completeness auto
termination
  by (relation "measures [\<lambda>(b, row, n). fullRows b, \<lambda>(b, row, n). nat (row + 1)]")
     (auto simp: fullRows_splice)

declare clearLinesLoop.simps [simp del]

text \<open>
  The board update of \<open>addPenaltyLinesToOthers\<close>: \<open>penaltyLines\<close> rows of ten 'X' are
  pushed at the bottom, then rows are shifted off the top while there are more than 20.
\<close>

definition penaltyLine :: "cell list" where
  "penaltyLine = replicate 10 (Tag TX)"

definition pushPenalty :: "board \<Rightarrow> nat \<Rightarrow> board" where
  "pushPenalty b penaltyLines =
     (let b' = b @ replicate penaltyLines penaltyLine in drop (length b' - 20) b')"

section \<open>Players (the Player class)\<close>

text \<open>
  \<open>id\<close>, \<open>name\<close> and \<open>roomName\<close> are the fields \<open>pid\<close>, \<open>pname\<close> and \<open>proomName\<close>.
  Nothing in the server calls the methods \<open>updateSpectrum\<close>, \<open>updateScore\<close> or
  \<open>reset\<close>, so they are no part of the model, and neither is the field
  \<open>spectrum\<close>, which only the first of them writes.
\<close>

record player =
  pid :: string
  pname :: string
  proomName :: string
  isHost :: bool
  isAlive :: bool
  score :: nat
  linesCleared :: nat
  board :: "board option"
  currentPiece :: "piece option"
  nextPiece :: "piece option"

text \<open>The constructor \<open>new Player(id, name, roomName, isHost)\<close>.\<close>

definition Player :: "string \<Rightarrow> string \<Rightarrow> string \<Rightarrow> bool \<Rightarrow> player" where
  "Player i n room host =
     \<lparr>pid = i, pname = n, proomName = room, isHost = host, isAlive = True, score = 0,
      linesCleared = 0, board = None, currentPiece = None, nextPiece = None\<rparr>"

text \<open>
  \<open>lockPiece(player)\<close>: every filled cell of the current piece that lies inside the
  grid is written to the player's board.
\<close>

fun lockLoop :: "player \<Rightarrow> piece \<Rightarrow> (nat \<times> nat) list \<Rightarrow> player option" where
  "lockLoop p pc [] = Some p"
| "lockLoop p pc ((row, col) # cs) =
     (let boardRow = py pc + int row; boardCol = px pc + int col in
      if boardRow \<ge> 0 \<and> boardRow < 20 \<and> boardCol \<ge> 0 \<and> boardCol < 10
      then (case board p of
              None \<Rightarrow> None
            | Some b \<Rightarrow>
                (case writeCell b (nat boardRow) (nat boardCol) (Tag (ptype pc)) of
                   None \<Rightarrow> None
                 | Some b' \<Rightarrow> lockLoop (p\<lparr>board := Some b'\<rparr>) pc cs))
      else lockLoop p pc cs)"

definition lockPiece :: "player \<Rightarrow> player option" where
  "lockPiece p =
     (case currentPiece p of
        None \<Rightarrow> None
      | Some pc \<Rightarrow>
          (case cellsOf (shape pc) of
             None \<Rightarrow> None
           | Some cs \<Rightarrow> lockLoop p pc cs))"

text \<open>\<open>clearLines(player)\<close> returns the number of cleared lines with the player.\<close>

definition clearLines :: "player \<Rightarrow> (player \<times> nat) option" where
  "clearLines p =
     (case board p of
        None \<Rightarrow> None
      | Some b \<Rightarrow>
          (case clearLinesLoop b 19 0 of
             None \<Rightarrow> None
           | Some (b', n) \<Rightarrow>
               Some ((if n > 0
                      then p\<lparr>board := Some b', linesCleared := linesCleared p + n,
                             score := score p + n * 100\<rparr>
                      else p\<lparr>board := Some b'\<rparr>), n)))"

definition canSpawnPiece :: "player \<Rightarrow> bool option" where
  "canSpawnPiece p = isValidPosition (board p) (currentPiece p) 3 0"

text \<open>
  \<open>movePiece(player, direction)\<close>; the boolean is the \<open>success\<close> field of the result.
\<close>

datatype direction = left | right | down | other

definition movePiece :: "player \<Rightarrow> direction \<Rightarrow> (player \<times> bool) option" where
  "movePiece p d =
     (case currentPiece p of
        None \<Rightarrow> Some (p, False)
      | Some pc \<Rightarrow>
          if \<not> isAlive p then Some (p, False)
          else (case (case d of left \<Rightarrow> Some (px pc - 1, py pc)
                              | right \<Rightarrow> Some (px pc + 1, py pc)
                              | down \<Rightarrow> Some (px pc, py pc + 1)
                              | other \<Rightarrow> None) of
                  None \<Rightarrow> Some (p, False)
                | Some (newX, newY) \<Rightarrow>
                    (case isValidPosition (board p) (Some pc) newX newY of
                       None \<Rightarrow> None
                     | Some ok \<Rightarrow>
                         if ok then Some (p\<lparr>currentPiece := Some (pc\<lparr>px := newX, py := newY\<rparr>)\<rparr>, True)
                         else Some (p, False))))"

definition rotatePiece :: "player \<Rightarrow> (player \<times> bool) option" where
  "rotatePiece p =
     (case currentPiece p of
        None \<Rightarrow> Some (p, False)
      | Some pc \<Rightarrow>
          if \<not> isAlive p then Some (p, False)
          else (case Piece_rotate pc of
                  None \<Rightarrow> None
                | Some rotated \<Rightarrow>
                    (case isValidPosition (board p) (Some rotated) (px pc) (py pc) of
                       None \<Rightarrow> None
                     | Some ok \<Rightarrow>
                         if ok then Some (p\<lparr>currentPiece := Some rotated\<rparr>, True)
                         else Some (p, False))))"

text \<open>
  The \<open>while\<close> loop of \<open>hardDrop\<close>: \<open>y\<close> grows as long as the position one row down
  is valid. For a shape without a filled cell every position is valid and the loop
  never ends; not returning is \<open>None\<close>, as is a TypeError.
\<close>

partial_function (option) hardDropLoop :: "board option \<Rightarrow> piece \<Rightarrow> piece option" where
  "hardDropLoop bo pc =
     (case isValidPosition bo (Some pc) (px pc) (py pc + 1) of
        None \<Rightarrow> None
      | Some ok \<Rightarrow> if ok then hardDropLoop bo (pc\<lparr>py := py pc + 1\<rparr>) else Some pc)"

declare hardDropLoop.simps [code]

section \<open>Rooms (the Game class)\<close>

text \<open>
  Player objects are shared between a room's \<open>players\<close> array and the manager's
  \<open>players\<close> map, so they live in a store and are named by reference.
\<close>

type_synonym ref = nat

type_synonym heap = "ref \<Rightarrow> player"

datatype status = waiting | playing | finished

text \<open>
  \<open>gameTimer\<close> tells whether an interval handle is stored; \<open>liveIntervals\<close> counts the
  intervals of this room that were set and not cleared.
\<close>

record game =
  roomName :: string
  players :: "ref list"
  status :: status
  pieceSequence :: "tag list"
  currentPieceIndex :: nat
  gameTimer :: bool
  liveIntervals :: nat

definition Game :: "string \<Rightarrow> game" where
  "Game room =
     \<lparr>roomName = room, players = [], status = waiting, pieceSequence = [],
      currentPieceIndex = 0, gameTimer = False, liveIntervals = 0\<rparr>"

definition addPlayer :: "game \<Rightarrow> ref \<Rightarrow> game" where
  "addPlayer g r = g\<lparr>players := players g @ [r]\<rparr>"

fun findIndex :: "('a \<Rightarrow> bool) \<Rightarrow> 'a list \<Rightarrow> nat option" where
  "findIndex P [] = None"
| "findIndex P (x # xs) = (if P x then Some 0 else map_option Suc (findIndex P xs))"

definition removePlayer :: "heap \<Rightarrow> game \<Rightarrow> ref \<Rightarrow> game" where
  "removePlayer h g r =
     (case findIndex (\<lambda>q. pid (h q) = pid (h r)) (players g) of
        None \<Rightarrow> g
      | Some i \<Rightarrow> g\<lparr>players := take i (players g) @ drop (Suc i) (players g)\<rparr>)"

definition endGame :: "game \<Rightarrow> game" where
  "endGame g =
     g\<lparr>status := finished,
       liveIntervals := (if gameTimer g then liveIntervals g - 1 else liveIntervals g),
       gameTimer := False\<rparr>"

definition pieces :: "tag list" where
  "pieces = [TI, TO, TT, TS, TZ, TJ, TL]"

text \<open>
  \<open>[...pieces].sort(() => Math.random() - 0.5)\<close>: the comparator ignores its
  arguments, so the random draws alone decide where each element ends, and a sort
  only permutes its array. The draws of one sort are given as a list of keys, one
  for each position of the array (0 for a position without one): the array comes
  back ordered by them, elements with equal keys in their old order. Every
  permutation is the outcome for some keys.
\<close>

definition shuffled :: "nat list \<Rightarrow> 'a list \<Rightarrow> 'a list" where
  "shuffled keys xs =
     map snd (sort_key (\<lambda>(i, x). if i < length keys then keys ! i else 0) (enumerate 0 xs))"

text \<open>
  \<open>generatePieceSequence\<close>: ten times, a copy of \<open>pieces\<close> is shuffled and appended;
  \<open>sortRandom i\<close> is the randomness of the \<open>i\<close>-th sort.
\<close>

definition generatePieceSequence :: "(nat \<Rightarrow> nat list) \<Rightarrow> tag list" where
  "generatePieceSequence sortRandom =
     concat (map (\<lambda>i. shuffled (sortRandom i) pieces) [0 ..< 10])"

text \<open>\<open>pieceSequence[i]\<close>: \<open>undefined\<close> beyond the end.\<close>

definition seqAt :: "tag list \<Rightarrow> nat \<Rightarrow> tag" where
  "seqAt s i = (if i < length s then s ! i else Undefined)"

definition distributePieces :: "heap \<Rightarrow> game \<Rightarrow> heap" where
  "distributePieces h g =
     fold (\<lambda>r h. h(r := (h r)\<lparr>currentPiece := Some (Piece (seqAt (pieceSequence g) (currentPieceIndex g))),
                               nextPiece := Some (Piece (seqAt (pieceSequence g) (currentPieceIndex g + 1))),
                               board := Some createEmptyBoard,
                               score := 0,
                               linesCleared := 0\<rparr>))
          (players g) h"

definition startGameLoop :: "game \<Rightarrow> game" where
  "startGameLoop g = g\<lparr>gameTimer := True, liveIntervals := liveIntervals g + 1\<rparr>"

definition start :: "(nat \<Rightarrow> nat list) \<Rightarrow> heap \<Rightarrow> game \<Rightarrow> heap \<times> game" where
  "start sortRandom h g =
     (let g1 = g\<lparr>status := playing\<rparr>;
          g2 = g1\<lparr>pieceSequence := generatePieceSequence sortRandom\<rparr>
      in (distributePieces h g2, startGameLoop g2))"

text \<open>
  \<open>spawnNewPiece(player)\<close> advances the room's one \<open>currentPieceIndex\<close>; setting
  \<open>x\<close> of a \<open>null\<close> piece is a TypeError.
\<close>

definition spawnNewPiece :: "game \<Rightarrow> player \<Rightarrow> (game \<times> player) option" where
  "spawnNewPiece g p =
     (let g' = g\<lparr>currentPieceIndex := currentPieceIndex g + 1\<rparr> in
      case nextPiece p of
        None \<Rightarrow> None
      | Some np \<Rightarrow>
          Some (g', p\<lparr>currentPiece := Some (np\<lparr>px := 3, py := 0\<rparr>),
                      nextPiece := Some (Piece (seqAt (pieceSequence g') (currentPieceIndex g')))\<rparr>))"

definition checkGameEnd :: "heap \<Rightarrow> game \<Rightarrow> game" where
  "checkGameEnd h g =
     (let alivePlayers = filter (\<lambda>r. isAlive (h r)) (players g) in
      if length alivePlayers \<le> 1 then endGame g else g)"

text \<open>\<open>dropPiece(player)\<close>, the gravity step of the interval callback.\<close>

definition dropPiece :: "heap \<Rightarrow> game \<Rightarrow> ref \<Rightarrow> (heap \<times> game) option" where
  "dropPiece h g r =
     (case currentPiece (h r) of
        None \<Rightarrow> Some (h, g)
      | Some pc \<Rightarrow>
          (case isValidPosition (board (h r)) (Some pc) (px pc) (py pc + 1) of
             None \<Rightarrow> None
           | Some ok \<Rightarrow>
               if ok then Some (h(r := (h r)\<lparr>currentPiece := Some (pc\<lparr>py := py pc + 1\<rparr>)\<rparr>), g)
               else (case lockPiece (h r) of
                       None \<Rightarrow> None
                     | Some p1 \<Rightarrow>
                         (case clearLines p1 of
                            None \<Rightarrow> None
                          | Some (p2, n) \<Rightarrow>
                              (case spawnNewPiece g p2 of
                                 None \<Rightarrow> None
                               | Some (g1, p3) \<Rightarrow>
                                   (case canSpawnPiece p3 of
                                      None \<Rightarrow> None
                                    | Some can \<Rightarrow>
                                        if \<not> can
                                        then (let h' = h(r := p3\<lparr>isAlive := False\<rparr>)
                                              in Some (h', checkGameEnd h' g1))
                                        else Some (h(r := p3), g1)))))))"

text \<open>The interval callback: \<open>dropPiece\<close> for each player that is alive at its turn.\<close>

fun tickLoop :: "heap \<Rightarrow> game \<Rightarrow> ref list \<Rightarrow> (heap \<times> game) option" where
  "tickLoop h g [] = Some (h, g)"
| "tickLoop h g (r # rs) =
     (if isAlive (h r)
      then (case dropPiece h g r of None \<Rightarrow> None | Some (h', g') \<Rightarrow> tickLoop h' g' rs)
      else tickLoop h g rs)"

definition tick :: "heap \<Rightarrow> game \<Rightarrow> (heap \<times> game) option" where
  "tick h g = tickLoop h g (players g)"

text \<open>
  \<open>hardDrop(player)\<close>; the third component is \<open>None\<close> for \<open>{ success: false }\<close> and
  the \<open>linesCleared\<close> of the result otherwise.
\<close>

definition hardDrop :: "game \<Rightarrow> player \<Rightarrow> (game \<times> player \<times> nat option) option" where
  "hardDrop g p =
     (case currentPiece p of
        None \<Rightarrow> Some (g, p, None)
      | Some pc \<Rightarrow>
          if \<not> isAlive p then Some (g, p, None)
          else (case hardDropLoop (board p) pc of
                  None \<Rightarrow> None
                | Some pc' \<Rightarrow>
                    (case lockPiece (p\<lparr>currentPiece := Some pc'\<rparr>) of
                       None \<Rightarrow> None
                     | Some p1 \<Rightarrow>
                         (case clearLines p1 of
                            None \<Rightarrow> None
                          | Some (p2, n) \<Rightarrow>
                              (case spawnNewPiece g p2 of
                                 None \<Rightarrow> None
                               | Some (g1, p3) \<Rightarrow> Some (g1, p3, Some n))))))"

text \<open>
  \<open>addPenaltyLinesToOthers(clearingPlayer, penaltyLines)\<close>: the \<open>forEach\<close> over the
  room's players.
\<close>

fun penaltyLoop :: "heap \<Rightarrow> game \<Rightarrow> ref \<Rightarrow> nat \<Rightarrow> ref list \<Rightarrow> (heap \<times> game) option" where
  "penaltyLoop h g c n [] = Some (h, g)"
| "penaltyLoop h g c n (r # rs) =
     (if pid (h r) \<noteq> pid (h c) \<and> isAlive (h r)
      then (case board (h r) of
              None \<Rightarrow> None
            | Some b \<Rightarrow>
                (let p1 = (h r)\<lparr>board := Some (pushPenalty b n)\<rparr> in
                 case canSpawnPiece p1 of
                   None \<Rightarrow> None
                 | Some can \<Rightarrow>
                     if \<not> can
                     then (let h' = h(r := p1\<lparr>isAlive := False\<rparr>)
                           in penaltyLoop h' (checkGameEnd h' g) c n rs)
                     else penaltyLoop (h(r := p1)) g c n rs))
      else penaltyLoop h g c n rs)"

definition addPenaltyLinesToOthers :: "heap \<Rightarrow> game \<Rightarrow> ref \<Rightarrow> nat \<Rightarrow> (heap \<times> game) option" where
  "addPenaltyLinesToOthers h g clearingPlayer penaltyLines =
     penaltyLoop h g clearingPlayer penaltyLines (players g)"

text \<open>
  The methods above are the only code that writes a board, and a method, once
  called, runs to its end. So whatever the handlers of the registry do, and in
  whatever order they and the interval callbacks take their turns, the store of
  player objects only goes through: the construction of a player object, a method
  of some room called on some player, and the promotion of a player to host. A
  \<open>call\<close> is one of these, with any room and any player as its arguments; the room
  that a method returns is dropped, since the next call may be given any room.
\<close>

datatype call =
    NewPlayer ref string string string bool
  | CallStart "nat \<Rightarrow> nat list" game
  | CallDropPiece game ref
  | CallInterval game
  | CallMovePiece ref direction
  | CallRotatePiece ref
  | CallHardDrop game ref
  | CallAddPenaltyLines game ref nat
  | SetHost ref

fun perform :: "heap \<Rightarrow> call \<Rightarrow> heap option" where
  "perform h (NewPlayer r i n room host) = Some (h(r := Player i n room host))"
| "perform h (CallStart sortRandom g) = Some (fst (start sortRandom h g))"
| "perform h (CallDropPiece g r) = map_option fst (dropPiece h g r)"
| "perform h (CallInterval g) = map_option fst (tick h g)"
| "perform h (CallMovePiece r d) = map_option (\<lambda>(p, ok). h(r := p)) (movePiece (h r) d)"
| "perform h (CallRotatePiece r) = map_option (\<lambda>(p, ok). h(r := p)) (rotatePiece (h r))"
| "perform h (CallHardDrop g r) = map_option (\<lambda>(g', p, n). h(r := p)) (hardDrop g (h r))"
| "perform h (CallAddPenaltyLines g r n) = map_option fst (addPenaltyLinesToOthers h g r n)"
| "perform h (SetHost r) = Some (h(r := (h r)\<lparr>isHost := True\<rparr>))"

fun calls :: "heap \<Rightarrow> call list \<Rightarrow> heap option" where
  "calls h [] = Some h"
| "calls h (c # cs) = (case perform h c of None \<Rightarrow> None | Some h' \<Rightarrow> calls h' cs)"

section \<open>The registry (the GameManager class)\<close>

text \<open>
  The manager of \<open>joinGame\<close>, \<open>startGame\<close>, \<open>hardDrop\<close> and \<open>handleDisconnect\<close>. Its
  map \<open>players\<close> (socket id to Player object) is the field \<open>mplayers\<close>. The
  database is outside: what its calls answer, and whether they throw, are parameters
  of the handlers. Events emitted to sockets are not part of the state; the message
  of an \<open>error\<close> event sent to the caller is the handler's outcome.

  \<open>joinGame\<close>, \<open>startGame\<close> and \<open>handleDisconnect\<close> are \<open>async\<close>: at each \<open>await\<close> of
  a database call another handler or an interval callback may run before the rest
  of the handler does. The functions below are the handlers run from their first
  statement to their last with nothing in between, and \<open>run\<close> takes the events one
  after the other: the runs of the server in which no handler starts during an
  \<open>await\<close> of another. What holds of the player objects whatever the order of the
  calls is stated over \<open>calls\<close>, at the end of the section on rooms.
\<close>

record manager =
  games :: "string \<rightharpoonup> game"
  mplayers :: "string \<rightharpoonup> ref"
  socketToRoom :: "string \<rightharpoonup> string"
  heap :: heap
  nextRef :: ref

definition GameManager :: manager where
  "GameManager =
     \<lparr>games = Map.empty, mplayers = Map.empty, socketToRoom = Map.empty,
      heap = (\<lambda>_. Player [] [] [] False), nextRef = 0\<rparr>"

datatype outcome = Done | Error string

text \<open>
  The database during \<open>joinGame\<close>: whether \<open>getPlayersInRoom\<close> throws, whether it
  lists the name, whether \<open>getGame\<close>/\<open>createGame\<close> throw, whether \<open>addPlayer\<close> throws.
\<close>

record joinDb =
  lookupThrows :: bool
  nameExists :: bool
  createThrows :: bool
  addThrows :: bool

definition joinGame :: "manager \<Rightarrow> string \<Rightarrow> string \<Rightarrow> string \<Rightarrow> joinDb \<Rightarrow> manager \<times> outcome" where
  "joinGame m sock room playerName db =
     (if lookupThrows db then (m, Error ''Failed to join game'')
      else if nameExists db then (m, Error ''Player name already taken in this room'')
      else (case (case games m room of
                    Some g \<Rightarrow> Some (m, g)
                  | None \<Rightarrow> if createThrows db then None
                            else Some (m\<lparr>games := (games m)(room \<mapsto> Game room)\<rparr>, Game room)) of
              None \<Rightarrow> (m, Error ''Failed to join game'')
            | Some (m1, g) \<Rightarrow>
                if status g = playing then (m1, Error ''Game is already in progress'')
                else if addThrows db then (m1, Error ''Failed to join game'')
                else (let r = nextRef m1;
                          player = Player sock playerName room (length (players g) = 0)
                      in (m1\<lparr>heap := (heap m1)(r := player),
                              nextRef := Suc r,
                              games := (games m1)(room \<mapsto> addPlayer g r),
                              mplayers := (mplayers m1)(sock \<mapsto> r),
                              socketToRoom := (socketToRoom m1)(sock \<mapsto> room)\<rparr>, Done))))"

text \<open>
  \<open>startGame(socket, roomName)\<close>; \<open>statusThrows\<close> tells whether the database's
  \<open>updateGameStatus\<close> throws, \<open>sortRandom\<close> is the randomness of this start.
\<close>

definition startGame ::
  "manager \<Rightarrow> string \<Rightarrow> string \<Rightarrow> (nat \<Rightarrow> nat list) \<Rightarrow> bool \<Rightarrow> manager \<times> outcome" where
  "startGame m sock room sortRandom statusThrows =
     (case games m room of
        None \<Rightarrow> (m, Error ''Game not found'')
      | Some g \<Rightarrow>
          (case mplayers m sock of
             None \<Rightarrow> (m, Error ''Only the host can start the game'')
           | Some r \<Rightarrow>
               if \<not> isHost (heap m r) then (m, Error ''Only the host can start the game'')
               else if length (players g) < 1 then (m, Error ''Need at least 1 player to start'')
               else if statusThrows then (m, Error ''Failed to start game'')
               else (let (h', g') = start sortRandom (heap m) g
                     in (m\<lparr>heap := h', games := (games m)(room \<mapsto> g')\<rparr>, Done))))"

text \<open>
  The three game commands. They have no \<open>try\<close>: a TypeError or a loop that never ends
  is \<open>None\<close>.
\<close>

definition manager_movePiece :: "manager \<Rightarrow> string \<Rightarrow> direction \<Rightarrow> manager option" where
  "manager_movePiece m sock d =
     (case socketToRoom m sock of
        None \<Rightarrow> Some m
      | Some room \<Rightarrow>
          (case games m room of
             None \<Rightarrow> Some m
           | Some g \<Rightarrow>
               if status g \<noteq> playing then Some m
               else (case mplayers m sock of
                       None \<Rightarrow> Some m
                     | Some r \<Rightarrow>
                         (case movePiece (heap m r) d of
                            None \<Rightarrow> None
                          | Some (p', ok) \<Rightarrow> Some (m\<lparr>heap := (heap m)(r := p')\<rparr>)))))"

definition manager_rotatePiece :: "manager \<Rightarrow> string \<Rightarrow> manager option" where
  "manager_rotatePiece m sock =
     (case socketToRoom m sock of
        None \<Rightarrow> Some m
      | Some room \<Rightarrow>
          (case games m room of
             None \<Rightarrow> Some m
           | Some g \<Rightarrow>
               if status g \<noteq> playing then Some m
               else (case mplayers m sock of
                       None \<Rightarrow> Some m
                     | Some r \<Rightarrow>
                         (case rotatePiece (heap m r) of
                            None \<Rightarrow> None
                          | Some (p', ok) \<Rightarrow> Some (m\<lparr>heap := (heap m)(r := p')\<rparr>)))))"

text \<open>
  \<open>hardDrop(socket, data)\<close>: after a successful drop with \<open>linesCleared > 0\<close> it
  hands \<open>linesCleared - 1\<close> penalty lines to the others.
\<close>

definition manager_hardDrop :: "manager \<Rightarrow> string \<Rightarrow> manager option" where
  "manager_hardDrop m sock =
     (case socketToRoom m sock of
        None \<Rightarrow> Some m
      | Some room \<Rightarrow>
          (case games m room of
             None \<Rightarrow> Some m
           | Some g \<Rightarrow>
               if status g \<noteq> playing then Some m
               else (case mplayers m sock of
                       None \<Rightarrow> Some m
                     | Some r \<Rightarrow>
                         (case hardDrop g (heap m r) of
                            None \<Rightarrow> None
                          | Some (g1, p1, None) \<Rightarrow> Some m
                          | Some (g1, p1, Some n) \<Rightarrow>
                              (let h1 = (heap m)(r := p1) in
                               if n > 0
                               then (case addPenaltyLinesToOthers h1 g1 r (n - 1) of
                                       None \<Rightarrow> None
                                     | Some (h2, g2) \<Rightarrow>
                                         Some (m\<lparr>heap := h2, games := (games m)(room \<mapsto> g2)\<rparr>))
                               else Some (m\<lparr>heap := h1, games := (games m)(room \<mapsto> g1)\<rparr>))))))"

text \<open>
  \<open>handleDisconnect(socket)\<close>; \<open>removeThrows\<close> and \<open>statusThrows\<close> tell whether the
  database's \<open>removePlayer\<close> and \<open>updateGameStatus\<close> throw (the \<open>catch\<close> only logs).
  A room name that is the empty string is falsy.
\<close>

definition cleanUp :: "manager \<Rightarrow> string \<Rightarrow> manager" where
  "cleanUp m sock =
     m\<lparr>mplayers := (mplayers m)(sock := None), socketToRoom := (socketToRoom m)(sock := None)\<rparr>"

definition handleDisconnect :: "manager \<Rightarrow> string \<Rightarrow> bool \<Rightarrow> bool \<Rightarrow> manager" where
  "handleDisconnect m sock removeThrows statusThrows =
     (case (mplayers m sock, socketToRoom m sock) of
        (Some r, Some room) \<Rightarrow>
          if room = [] then m
          else if removeThrows then m
          else (case games m room of
                  None \<Rightarrow> cleanUp m sock
                | Some g \<Rightarrow>
                    (let g1 = removePlayer (heap m) g r in
                     if length (players g1) = 0
                     then (let m1 = m\<lparr>games := (games m)(room := None)\<rparr>
                           in if statusThrows then m1 else cleanUp m1 sock)
                     else if status g1 = playing
                     then (if length (players g1) = 1
                           then cleanUp (m\<lparr>games := (games m)(room \<mapsto> endGame g1)\<rparr>) sock
                           else if isHost (heap m r)
                           then (case players g1 of
                                   [] \<Rightarrow> m
                                 | newHost # _ \<Rightarrow>
                                     cleanUp (m\<lparr>heap := (heap m)(newHost := (heap m newHost)\<lparr>isHost := True\<rparr>),
                                               games := (games m)(room \<mapsto> g1)\<rparr>) sock)
                           else cleanUp (m\<lparr>games := (games m)(room \<mapsto> g1)\<rparr>) sock)
                     else cleanUp (m\<lparr>games := (games m)(room \<mapsto> g1)\<rparr>) sock))
      | _ \<Rightarrow> m)"

text \<open>The interval callback of a room fires only while one of its intervals is live.\<close>

definition manager_tick :: "manager \<Rightarrow> string \<Rightarrow> manager option" where
  "manager_tick m room =
     (case games m room of
        None \<Rightarrow> Some m
      | Some g \<Rightarrow>
          if liveIntervals g = 0 then Some m
          else (case tick (heap m) g of
                  None \<Rightarrow> None
                | Some (h', g') \<Rightarrow> Some (m\<lparr>heap := h', games := (games m)(room \<mapsto> g')\<rparr>)))"

text \<open>What the server receives, and a run of the server from a list of such events.\<close>

datatype event =
    JoinGame string string string joinDb
  | StartGame string string "nat \<Rightarrow> nat list" bool
  | MovePiece string direction
  | RotatePiece string
  | HardDrop string
  | Disconnect string bool bool
  | Tick string

fun step :: "manager \<Rightarrow> event \<Rightarrow> manager option" where
  "step m (JoinGame sock room playerName db) = Some (fst (joinGame m sock room playerName db))"
| "step m (StartGame sock room sortRandom statusThrows) =
     Some (fst (startGame m sock room sortRandom statusThrows))"
| "step m (MovePiece sock d) = manager_movePiece m sock d"
| "step m (RotatePiece sock) = manager_rotatePiece m sock"
| "step m (HardDrop sock) = manager_hardDrop m sock"
| "step m (Disconnect sock removeThrows statusThrows) =
     Some (handleDisconnect m sock removeThrows statusThrows)"
| "step m (Tick room) = manager_tick m room"

fun run :: "manager \<Rightarrow> event list \<Rightarrow> manager option" where
  "run m [] = Some m"
| "run m (e # es) = (case step m e of None \<Rightarrow> None | Some m' \<Rightarrow> run m' es)"

section \<open>Properties and sample states\<close>

text \<open>A board has the dimensions of the grid: 20 rows of 10 cells.\<close>

definition board_ok :: "board \<Rightarrow> bool" where
  "board_ok b \<longleftrightarrow> length b = 20 \<and> (\<forall>line \<in> set b. length line = 10)"

text \<open>A player's board is \<open>null\<close> or has the dimensions of the grid.\<close>

definition dims_inv :: "player \<Rightarrow> bool" where
  "dims_inv p \<longleftrightarrow> (case board p of None \<Rightarrow> True | Some b \<Rightarrow> board_ok b)"

text \<open>A player's score is 100 times the lines cleared.\<close>

definition score_inv :: "player \<Rightarrow> bool" where
  "score_inv p \<longleftrightarrow> score p = 100 * linesCleared p"

text \<open>
  A property of player objects is preserved when each way in which the server changes
  a player object keeps it, and the constructor establishes it.
\<close>

definition preserved :: "(player \<Rightarrow> bool) \<Rightarrow> bool" where
  "preserved P \<longleftrightarrow>
     (\<forall>p x. P p \<longrightarrow> P (p\<lparr>currentPiece := x\<rparr>)) \<and>
     (\<forall>p x. P p \<longrightarrow> P (p\<lparr>nextPiece := x\<rparr>)) \<and>
     (\<forall>p x. P p \<longrightarrow> P (p\<lparr>isAlive := x\<rparr>)) \<and>
     (\<forall>p x. P p \<longrightarrow> P (p\<lparr>isHost := x\<rparr>)) \<and>
     (\<forall>p p'. P p \<longrightarrow> lockPiece p = Some p' \<longrightarrow> P p') \<and>
     (\<forall>p p' n. P p \<longrightarrow> clearLines p = Some (p', n) \<longrightarrow> P p') \<and>
     (\<forall>p b n. P p \<longrightarrow> board p = Some b \<longrightarrow> P (p\<lparr>board := Some (pushPenalty b n)\<rparr>)) \<and>
     (\<forall>p c n. P (p\<lparr>currentPiece := c, nextPiece := n, board := Some createEmptyBoard,
                     score := 0, linesCleared := 0\<rparr>)) \<and>
     (\<forall>i n room host. P (Player i n room host))"

text \<open>
  A shape is well formed when it is a square matrix, not empty, with a filled cell; a
  piece, when its shape is such a matrix. A player object is well formed when its board, if any, has
  the grid's dimensions, its pieces are well formed, and with a current piece it has a
  board and a next piece.
\<close>

definition wf_shape :: "shape \<Rightarrow> bool" where
  "wf_shape s \<longleftrightarrow> s \<noteq> [] \<and> (\<forall>r \<in> set s. length r = length s) \<and> filledCells s \<noteq> []"

definition wf_matrix :: "shapeval \<Rightarrow> bool" where
  "wf_matrix v \<longleftrightarrow> (case v of Matrix s \<Rightarrow> wf_shape s | Inherited k \<Rightarrow> False)"

definition wf_piece :: "piece option \<Rightarrow> bool" where
  "wf_piece po \<longleftrightarrow> (case po of None \<Rightarrow> True | Some pc \<Rightarrow> wf_matrix (shape pc))"

definition wf_player :: "player \<Rightarrow> bool" where
  "wf_player p \<longleftrightarrow>
     dims_inv p \<and> wf_piece (currentPiece p) \<and> wf_piece (nextPiece p) \<and>
     (currentPiece p \<noteq> None \<longrightarrow> board p \<noteq> None \<and> nextPiece p \<noteq> None)"

text \<open>No player object of the first store has lost its current piece in the second.\<close>

definition keeps :: "heap \<Rightarrow> heap \<Rightarrow> bool" where
  "keeps h h' \<longleftrightarrow> (\<forall>q. currentPiece (h q) \<noteq> None \<longrightarrow> currentPiece (h' q) \<noteq> None)"

text \<open>
  A room is well formed when its players are allocated objects, its piece sequence
  holds tetromino letters only and, while it is playing, all its players have a
  current piece; a manager, when its player objects and rooms are.
\<close>

definition wf_room :: "manager \<Rightarrow> game \<Rightarrow> bool" where
  "wf_room m g \<longleftrightarrow>
     (status g = playing \<longrightarrow> (\<forall>r \<in> set (players g). currentPiece (heap m r) \<noteq> None)) \<and>
     (\<forall>r \<in> set (players g). r < nextRef m) \<and>
     set (pieceSequence g) \<subseteq> set pieces"

definition wf_manager :: "manager \<Rightarrow> bool" where
  "wf_manager m \<longleftrightarrow>
     (\<forall>q. wf_player (heap m q)) \<and> (\<forall>room g. games m room = Some g \<longrightarrow> wf_room m g)"

text \<open>What \<open>distributePieces\<close> does to one player.\<close>

definition deal :: "game \<Rightarrow> player \<Rightarrow> player" where
  "deal g p = p\<lparr>currentPiece := Some (Piece (seqAt (pieceSequence g) (currentPieceIndex g))),
               nextPiece := Some (Piece (seqAt (pieceSequence g) (currentPieceIndex g + 1))),
               board := Some createEmptyBoard,
               score := 0,
               linesCleared := 0\<rparr>"

text \<open>
  Sample inputs. The database answers without throwing and knows no duplicate name;
  every randomised sort leaves the order O, I, L, Z, J, S, T. Sockets \<open>a\<close> and \<open>b\<close>
  join room \<open>r\<close> (player objects 0 and 1), and \<open>a\<close>, the host, starts the game.
\<close>

definition dbOk :: joinDb where
  "dbOk = \<lparr>lookupThrows = False, nameExists = False, createThrows = False, addThrows = False\<rparr>"

definition bag :: "nat \<Rightarrow> nat list" where
  "bag i = [1, 0, 6, 5, 3, 4, 2]"

definition lobby :: "event list" where
  "lobby = [JoinGame ''a'' ''r'' ''alice'' dbOk, JoinGame ''b'' ''r'' ''bob'' dbOk]"

definition lobbyStart :: "event list" where
  "lobbyStart = lobby @ [StartGame ''a'' ''r'' bag False]"

text \<open>
  The commands with which \<open>a\<close> stacks O, I, I, L and Z into the two bottom rows, all
  but column 2, and holds the upright J over that column.
\<close>

definition aliceStack :: "event list" where
  "aliceStack =
     [MovePiece ''a'' left, MovePiece ''a'' left, MovePiece ''a'' left, HardDrop ''a'',
      HardDrop ''a'',
      HardDrop ''a'',
      MovePiece ''a'' right, MovePiece ''a'' right, MovePiece ''a'' right, MovePiece ''a'' right,
      HardDrop ''a'',
      MovePiece ''a'' right, MovePiece ''a'' right, MovePiece ''a'' right, HardDrop ''a'',
      RotatePiece ''a'', MovePiece ''a'' left, MovePiece ''a'' left]"

text \<open>What is observed after the server has handled a list of events.\<close>

definition playerAfter :: "event list \<Rightarrow> ref \<Rightarrow> player option" where
  "playerAfter es r = map_option (\<lambda>m. heap m r) (run GameManager es)"

definition roomAfter :: "event list \<Rightarrow> string \<Rightarrow> game option" where
  "roomAfter es room = Option.bind (run GameManager es) (\<lambda>m. games m room)"

definition startAfter :: "event list \<Rightarrow> string \<Rightarrow> string \<Rightarrow> outcome option" where
  "startAfter es sock room =
     map_option (\<lambda>m. snd (startGame m sock room bag False)) (run GameManager es)"

definition noPenaltyCell :: "board \<Rightarrow> bool" where
  "noPenaltyCell b = list_all (\<lambda>line. Tag TX \<notin> set line) b"

text \<open>Two players as \<open>start\<close> leaves them, their store and their room.\<close>

definition alice :: player where
  "alice = (Player ''a'' ''alice'' ''r'' True)\<lparr>board := Some createEmptyBoard,
           currentPiece := Some (Piece TO), nextPiece := Some (Piece TI)\<rparr>"

definition bob :: player where
  "bob = (Player ''b'' ''bob'' ''r'' False)\<lparr>board := Some createEmptyBoard,
           currentPiece := Some (Piece TO), nextPiece := Some (Piece TI)\<rparr>"

definition twoPlayers :: heap where
  "twoPlayers = (\<lambda>_. Player [] [] [] False)(0 := alice, 1 := bob)"

definition arena :: game where
  "arena = (Game ''r'')\<lparr>players := [0, 1], status := playing\<rparr>"

text \<open>The board of \<open>bob\<close> after \<open>alice\<close> has handed \<open>n\<close> penalty lines to the others.\<close>

definition penalised :: "nat \<Rightarrow> board option" where
  "penalised n =
     Option.bind (addPenaltyLinesToOthers twoPlayers arena 0 n) (\<lambda>(h', g'). board (h' 1))"

text \<open>
  \<open>alice\<close> with the two bottom rows filled up to columns 8 and 9 and her O at rest
  over these columns, and the players after the gravity step for her.
\<close>

definition twoRowsShort :: board where
  "twoRowsShort =
     replicate 18 (replicate 10 Zero) @ replicate 2 (replicate 8 (Tag TO) @ [Zero, Zero])"

definition aliceAtRest :: player where
  "aliceAtRest = alice\<lparr>board := Some twoRowsShort, currentPiece := Some ((Piece TO)\<lparr>px := 8, py := 18\<rparr>)\<rparr>"

definition afterGravity :: "ref \<Rightarrow> player option" where
  "afterGravity r = map_option (\<lambda>(h', g'). h' r) (dropPiece (twoPlayers(0 := aliceAtRest)) arena 0)"


text \<open>
  Calls on the store of the new manager. Two player objects are constructed and
  their room is started; the first player moves, turns and drops its piece, and two
  penalty lines go to the second. A third player object is constructed only then,
  as by a join that began before the start and ends after it, and the interval
  callback runs for the room of the three.
\<close>

definition arenaStarted :: game where
  "arenaStarted = snd (start bag (heap GameManager) arena)"

definition lateJoin :: "call list" where
  "lateJoin =
     [NewPlayer 0 ''a'' ''alice'' ''r'' True, NewPlayer 1 ''b'' ''bob'' ''r'' False,
      CallStart bag arena,
      CallMovePiece 0 left, CallRotatePiece 0, CallHardDrop arenaStarted 0,
      CallAddPenaltyLines arenaStarted 0 2,
      NewPlayer 2 ''c'' ''carol'' ''r'' False,
      CallInterval (arenaStarted\<lparr>players := [0, 1, 2]\<rparr>),
      CallDropPiece (arenaStarted\<lparr>players := [0, 1, 2]\<rparr>) 2, SetHost 1]"

definition boardAfter :: "call list \<Rightarrow> ref \<Rightarrow> board option option" where
  "boardAfter cs r = map_option (\<lambda>h. board (h r)) (calls (heap GameManager) cs)"

section \<open>Board dimensions\<close>

lemma board_ok_createEmptyBoard: "board_ok createEmptyBoard"
  by (simp add: board_ok_def createEmptyBoard_def)

lemma writeCell_ok:
  assumes "board_ok b" "r < 20" "c < 10"
  shows "\<exists>b'. writeCell b r c v = Some b' \<and> board_ok b'"
  using assms
  by (auto simp: writeCell_def board_ok_def dest!: set_update_subset_insert[THEN subsetD])

lemma writeCell_dims:
  assumes "board_ok b" "writeCell b r c v = Some b'" "c < 10"
  shows "board_ok b'"
  using assms
  by (auto simp: writeCell_def board_ok_def split: if_splits dest!: set_update_subset_insert[THEN subsetD])

lemma lockLoop_dims:
  "dims_inv p \<Longrightarrow> lockLoop p pc cs = Some p' \<Longrightarrow> dims_inv p'"
proof (induction cs arbitrary: p)
  case Nil
  then show ?case by simp
next
  case (Cons a cs)
  obtain row col where a: "a = (row, col)" by (cases a)
  show ?case
  proof (cases "py pc + int row \<ge> 0 \<and> py pc + int row < 20 \<and> px pc + int col \<ge> 0 \<and> px pc + int col < 10")
    case False
    with Cons.prems a have "lockLoop p pc cs = Some p'" by (auto simp: Let_def)
    from Cons.IH[OF Cons.prems(1) this] show ?thesis .
  next
    case True
    with Cons.prems a obtain b b' where
      b: "board p = Some b" and
      w: "writeCell b (nat (py pc + int row)) (nat (px pc + int col)) (Tag (ptype pc)) = Some b'" and
      l: "lockLoop (p\<lparr>board := Some b'\<rparr>) pc cs = Some p'"
      by (auto simp: Let_def split: option.splits)
    from Cons.prems(1) b have "board_ok b" by (simp add: dims_inv_def)
    with w True have "board_ok b'" by (intro writeCell_dims[OF _ w]) auto
    then have "dims_inv (p\<lparr>board := Some b'\<rparr>)" by (simp add: dims_inv_def)
    from Cons.IH[OF this l] show ?thesis .
  qed
qed

lemma lockLoop_shape:
  "lockLoop p pc cs = Some p' \<Longrightarrow> \<exists>bo. p' = p\<lparr>board := bo\<rparr>"
proof (induction cs arbitrary: p)
  case Nil
  then have "p' = p\<lparr>board := board p\<rparr>" by simp
  then show ?case by blast
next
  case (Cons a cs)
  obtain row col where a: "a = (row, col)" by (cases a)
  show ?case
  proof (cases "py pc + int row \<ge> 0 \<and> py pc + int row < 20 \<and> px pc + int col \<ge> 0 \<and> px pc + int col < 10")
    case False
    with Cons.prems a have "lockLoop p pc cs = Some p'" by (auto simp: Let_def)
    from Cons.IH[OF this] show ?thesis .
  next
    case True
    with Cons.prems a obtain b' where l: "lockLoop (p\<lparr>board := Some b'\<rparr>) pc cs = Some p'"
      by (auto simp: Let_def split: option.splits)
    from Cons.IH[OF l] obtain bo where "p' = p\<lparr>board := Some b'\<rparr>\<lparr>board := bo\<rparr>" by blast
    then have "p' = p\<lparr>board := bo\<rparr>" by simp
    then show ?thesis by blast
  qed
qed

lemma lockLoop_total:
  "board p = Some b \<Longrightarrow> board_ok b \<Longrightarrow> \<exists>p'. lockLoop p pc cs = Some p'"
proof (induction cs arbitrary: p b)
  case Nil
  then show ?case by simp
next
  case (Cons a cs)
  obtain row col where a: "a = (row, col)" by (cases a)
  show ?case
  proof (cases "py pc + int row \<ge> 0 \<and> py pc + int row < 20 \<and> px pc + int col \<ge> 0 \<and> px pc + int col < 10")
    case False
    from Cons.IH[OF Cons.prems] obtain p' where "lockLoop p pc cs = Some p'" by blast
    with False a show ?thesis by (auto simp: Let_def)
  next
    case True
    then have "nat (py pc + int row) < 20" "nat (px pc + int col) < 10" by auto
    from writeCell_ok[OF Cons.prems(2) this] obtain b' where
      w: "writeCell b (nat (py pc + int row)) (nat (px pc + int col)) (Tag (ptype pc)) = Some b'" and ok: "board_ok b'"
      by blast
    have "board (p\<lparr>board := Some b'\<rparr>) = Some b'" by simp
    from Cons.IH[OF this ok] obtain p' where "lockLoop (p\<lparr>board := Some b'\<rparr>) pc cs = Some p'" by blast
    with True a w Cons.prems(1) show ?thesis by (auto simp: Let_def)
  qed
qed

lemma clearLinesLoop_ok:
  "board_ok b \<Longrightarrow> row < 20 \<Longrightarrow> \<exists>b' k. clearLinesLoop b row n = Some (b', k) \<and> board_ok b' \<and> n \<le> k"
proof (induction b row n rule: clearLinesLoop.induct)
  case (1 b row n)
  show ?case
  proof (cases "row < 0")
    case True
    with 1 show ?thesis by (subst clearLinesLoop.simps) simp
  next
    case nonneg: False
    with "1.prems" have inr: "nat row < length b" by (simp add: board_ok_def)
    show ?thesis
    proof (cases "isLineFull (b ! nat row)")
      case True
      let ?b = "replicate 10 Zero # (take (nat row) b @ drop (Suc (nat row)) b)"
      have "board_ok ?b"
        using "1.prems" inr by (auto simp: board_ok_def dest: in_set_takeD in_set_dropD)
      from "1.IH"(1)[OF nonneg _ True this "1.prems"(2)] inr
      obtain b' k where "clearLinesLoop ?b row (Suc n) = Some (b', k)" "board_ok b'" "Suc n \<le> k"
        by auto
      with nonneg inr True show ?thesis
        by (subst clearLinesLoop.simps) auto
    next
      case False
      from "1.IH"(2)[OF nonneg _ False "1.prems"(1)] inr "1.prems"(2)
      obtain b' k where "clearLinesLoop b (row - 1) n = Some (b', k)" "board_ok b'" "n \<le> k"
        by auto
      with nonneg inr False show ?thesis
        by (subst clearLinesLoop.simps) auto
    qed
  qed
qed

lemma pushPenalty_ok: "board_ok b \<Longrightarrow> board_ok (pushPenalty b n)"
  by (auto simp: board_ok_def pushPenalty_def penaltyLine_def Let_def dest!: in_set_dropD)

section \<open>Properties kept by every event\<close>

lemma preservedD:
  assumes "preserved P"
  shows "P p \<Longrightarrow> P (p\<lparr>currentPiece := x\<rparr>)"
    and "P p \<Longrightarrow> P (p\<lparr>nextPiece := y\<rparr>)"
    and "P p \<Longrightarrow> P (p\<lparr>isAlive := a\<rparr>)"
    and "P p \<Longrightarrow> P (p\<lparr>isHost := a\<rparr>)"
    and "P p \<Longrightarrow> lockPiece p = Some p' \<Longrightarrow> P p'"
    and "P p \<Longrightarrow> clearLines p = Some (p', n) \<Longrightarrow> P p'"
    and "P p \<Longrightarrow> board p = Some b \<Longrightarrow> P (p\<lparr>board := Some (pushPenalty b n)\<rparr>)"
    and "P (p\<lparr>currentPiece := x, nextPiece := y, board := Some createEmptyBoard,
                     score := 0, linesCleared := 0\<rparr>)"
    and "P (Player i nm room host)"
  using assms unfolding preserved_def by fast+

lemma movePiece_preserves:
  assumes "preserved P" "P p" "movePiece p d = Some (p', ok)"
  shows "P p'"
  using assms(2,3) preservedD(1)[OF assms(1)]
  by (auto simp: movePiece_def split: option.splits if_splits direction.splits)

lemma rotatePiece_preserves:
  assumes "preserved P" "P p" "rotatePiece p = Some (p', ok)"
  shows "P p'"
  using assms(2,3) preservedD(1)[OF assms(1)]
  by (auto simp: rotatePiece_def split: option.splits if_splits)

lemma spawnNewPiece_preserves:
  assumes "preserved P" "P p" "spawnNewPiece g p = Some (g', p')"
  shows "P p'"
proof -
  from assms(3) obtain np where
    "p' = p\<lparr>currentPiece := Some (np\<lparr>px := 3, py := 0\<rparr>),
            nextPiece := Some (Piece (seqAt (pieceSequence g') (currentPieceIndex g')))\<rparr>"
    by (auto simp: spawnNewPiece_def Let_def split: option.splits)
  with assms(1,2) show ?thesis
    by (simp add: preservedD(1,2))
qed

lemma hardDrop_preserves:
  assumes "preserved P" "P p" "hardDrop g p = Some (g', p', res)"
  shows "P p'"
proof (cases "currentPiece p")
  case None
  with assms show ?thesis by (simp add: hardDrop_def)
next
  case (Some pc)
  show ?thesis
  proof (cases "isAlive p")
    case False
    with Some assms show ?thesis by (simp add: hardDrop_def)
  next
    case True
    with Some assms(3) obtain pc' p1 p2 n where
      l: "lockPiece (p\<lparr>currentPiece := Some pc'\<rparr>) = Some p1" and
      c: "clearLines p1 = Some (p2, n)" and
      s: "spawnNewPiece g p2 = Some (g', p')"
      by (auto simp: hardDrop_def split: option.splits)
    from assms(1,2) have "P (p\<lparr>currentPiece := Some pc'\<rparr>)" by (rule preservedD(1))
    from preservedD(5)[OF assms(1) this l] have "P p1" .
    from preservedD(6)[OF assms(1) this c] have "P p2" .
    from spawnNewPiece_preserves[OF assms(1) this s] show ?thesis .
  qed
qed

lemma dropPiece_preserves:
  assumes "preserved P" "\<forall>q. P (h q)" "dropPiece h g r = Some (h', g')"
  shows "\<forall>q. P (h' q)"
proof (cases "currentPiece (h r)")
  case None
  with assms show ?thesis by (simp add: dropPiece_def)
next
  case (Some pc)
  from assms(3) Some obtain ok where
    v: "isValidPosition (board (h r)) (Some pc) (px pc) (py pc + 1) = Some ok"
    by (cases "isValidPosition (board (h r)) (Some pc) (px pc) (py pc + 1)")
       (simp_all add: dropPiece_def)
  show ?thesis
  proof (cases ok)
    case True
    with assms(3) Some v have "h' = h(r := (h r)\<lparr>currentPiece := Some (pc\<lparr>py := py pc + 1\<rparr>)\<rparr>)"
      by (simp add: dropPiece_def)
    with assms(1,2) show ?thesis by (simp add: preservedD(1))
  next
    case False
    note d = dropPiece_def Some v False
    from assms(3) obtain p1 where l: "lockPiece (h r) = Some p1"
      by (cases "lockPiece (h r)") (simp_all add: d)
    from assms(3) obtain p2 n where c: "clearLines p1 = Some (p2, n)"
      by (cases "clearLines p1") (auto simp: d l)
    from assms(3) obtain g1 p3 where s: "spawnNewPiece g p2 = Some (g1, p3)"
      by (cases "spawnNewPiece g p2") (auto simp: d l c)
    from assms(3) obtain can where cs: "canSpawnPiece p3 = Some can"
      by (cases "canSpawnPiece p3") (auto simp: d l c s)
    from assms(3) have h': "h' = (if \<not> can then h(r := p3\<lparr>isAlive := False\<rparr>) else h(r := p3))"
      by (auto simp: d l c s cs Let_def split: if_splits)
    from assms(2) have "P (h r)" by simp
    from preservedD(5)[OF assms(1) this l] have "P p1" .
    from preservedD(6)[OF assms(1) this c] have "P p2" .
    from spawnNewPiece_preserves[OF assms(1) this s] have "P p3" .
    with assms(1,2) h' show ?thesis by (simp add: preservedD(3))
  qed
qed

lemma tickLoop_preserves:
  assumes "preserved P"
  shows "\<forall>q. P (h q) \<Longrightarrow> tickLoop h g rs = Some (h', g') \<Longrightarrow> \<forall>q. P (h' q)"
proof (induction rs arbitrary: h g)
  case Nil
  then show ?case by simp
next
  case (Cons r rs)
  show ?case
  proof (cases "isAlive (h r)")
    case False
    with Cons show ?thesis by simp
  next
    case True
    with Cons.prems(2) obtain h1 g1 where
      d: "dropPiece h g r = Some (h1, g1)" and t: "tickLoop h1 g1 rs = Some (h', g')"
      by (auto split: option.splits)
    from dropPiece_preserves[OF assms Cons.prems(1) d] have "\<forall>q. P (h1 q)" .
    from Cons.IH[OF this t] show ?thesis .
  qed
qed

lemma penaltyLoop_preserves:
  assumes "preserved P"
  shows "\<forall>q. P (h q) \<Longrightarrow> penaltyLoop h g c n rs = Some (h', g') \<Longrightarrow> \<forall>q. P (h' q)"
proof (induction rs arbitrary: h g)
  case Nil
  then show ?case by simp
next
  case (Cons r rs)
  show ?case
  proof (cases "pid (h r) \<noteq> pid (h c) \<and> isAlive (h r)")
    case False
    with Cons.prems(2) have "penaltyLoop h g c n rs = Some (h', g')" by auto
    from Cons.IH[OF Cons.prems(1) this] show ?thesis .
  next
    case True
    from True Cons.prems(2) obtain b where b: "board (h r) = Some b"
      by (cases "board (h r)") auto
    from True Cons.prems(2) b obtain can where
      cs: "canSpawnPiece ((h r)\<lparr>board := Some (pushPenalty b n)\<rparr>) = Some can"
      by (cases "canSpawnPiece ((h r)\<lparr>board := Some (pushPenalty b n)\<rparr>)") (auto simp: Let_def)
    from True Cons.prems(2) b cs have
      rest: "(if \<not> can
              then penaltyLoop (h(r := (h r)\<lparr>board := Some (pushPenalty b n), isAlive := False\<rparr>))
                     (checkGameEnd (h(r := (h r)\<lparr>board := Some (pushPenalty b n), isAlive := False\<rparr>)) g) c n rs
              else penaltyLoop (h(r := (h r)\<lparr>board := Some (pushPenalty b n)\<rparr>)) g c n rs) = Some (h', g')"
      by (auto simp: Let_def split: if_splits)
    from Cons.prems(1) have "P (h r)" by simp
    from preservedD(7)[OF assms this b] have p1: "P ((h r)\<lparr>board := Some (pushPenalty b n)\<rparr>)" .
    then have p2: "P ((h r)\<lparr>board := Some (pushPenalty b n), isAlive := False\<rparr>)"
      by (rule preservedD(3)[OF assms])
    show ?thesis
    proof (cases can)
      case True
      with rest have l: "penaltyLoop (h(r := (h r)\<lparr>board := Some (pushPenalty b n)\<rparr>)) g c n rs = Some (h', g')"
        by simp
      have "\<forall>q. P ((h(r := (h r)\<lparr>board := Some (pushPenalty b n)\<rparr>)) q)"
        using Cons.prems(1) p1 by simp
      from Cons.IH[OF this l] show ?thesis .
    next
      case False
      with rest have l: "penaltyLoop (h(r := (h r)\<lparr>board := Some (pushPenalty b n), isAlive := False\<rparr>))
                     (checkGameEnd (h(r := (h r)\<lparr>board := Some (pushPenalty b n), isAlive := False\<rparr>)) g) c n rs = Some (h', g')"
        by simp
      have "\<forall>q. P ((h(r := (h r)\<lparr>board := Some (pushPenalty b n), isAlive := False\<rparr>)) q)"
        using Cons.prems(1) p2 by simp
      from Cons.IH[OF this l] show ?thesis .
    qed
  qed
qed

lemma distributePieces_preserves:
  assumes "preserved P"
  shows "\<forall>q. P (h q) \<Longrightarrow> \<forall>q. P (distributePieces h g q)"
proof -
  have "\<forall>q. P (h q) \<Longrightarrow> \<forall>q. P (fold (\<lambda>r h. h(r := (h r)\<lparr>currentPiece := x, nextPiece := y,
           board := Some createEmptyBoard, score := 0, linesCleared := 0\<rparr>)) rs h q)" for x y rs
    by (induction rs arbitrary: h) (simp_all add: preservedD(8)[OF assms])
  then show "\<forall>q. P (h q) \<Longrightarrow> \<forall>q. P (distributePieces h g q)"
    unfolding distributePieces_def by blast
qed

lemma start_preserves:
  assumes "preserved P" "\<forall>q. P (h q)"
  shows "\<forall>q. P (fst (start sortRandom h g) q)"
  using distributePieces_preserves[OF assms] by (simp add: start_def Let_def)

lemma joinGame_preserves:
  assumes "preserved P" "\<forall>q. P (heap m q)"
  shows "\<forall>q. P (heap (fst (joinGame m sock room playerName db)) q)"
  using assms(2) preservedD(9)[OF assms(1)]
  by (auto simp: joinGame_def Let_def split: option.splits if_splits)

lemma startGame_preserves:
  assumes "preserved P" "\<forall>q. P (heap m q)"
  shows "\<forall>q. P (heap (fst (startGame m sock room sortRandom statusThrows)) q)"
proof -
  have "start sortRandom (heap m) g = (h', g') \<Longrightarrow> \<forall>q. P (h' q)" for g h' g'
    using start_preserves[OF assms, of sortRandom g] by simp
  with assms(2) show ?thesis
    by (auto simp: startGame_def Let_def split: option.splits if_splits prod.splits)
qed

lemma handleDisconnect_preserves:
  assumes "preserved P" "\<forall>q. P (heap m q)"
  shows "\<forall>q. P (heap (handleDisconnect m sock removeThrows statusThrows) q)"
  using assms(2) preservedD(4)[OF assms(1)]
  by (auto simp: handleDisconnect_def cleanUp_def Let_def split: option.splits if_splits list.splits)

lemma manager_movePiece_preserves:
  assumes "preserved P" "\<forall>q. P (heap m q)" "manager_movePiece m sock d = Some m'"
  shows "\<forall>q. P (heap m' q)"
proof -
  have mv: "movePiece (heap m r) d = Some (p', ok) \<Longrightarrow> P p'" for r p' ok
    using movePiece_preserves[OF assms(1), of "heap m r" d p' ok] assms(2) by simp
  show ?thesis
    using assms(2,3)
    by (auto simp: manager_movePiece_def split: option.splits if_splits dest: mv)
qed

lemma manager_rotatePiece_preserves:
  assumes "preserved P" "\<forall>q. P (heap m q)" "manager_rotatePiece m sock = Some m'"
  shows "\<forall>q. P (heap m' q)"
proof -
  have rt: "rotatePiece (heap m r) = Some (p', ok) \<Longrightarrow> P p'" for r p' ok
    using rotatePiece_preserves[OF assms(1), of "heap m r" p' ok] assms(2) by simp
  show ?thesis
    using assms(2,3)
    by (auto simp: manager_rotatePiece_def split: option.splits if_splits dest: rt)
qed

lemma manager_hardDrop_preserves:
  assumes "preserved P" "\<forall>q. P (heap m q)" "manager_hardDrop m sock = Some m'"
  shows "\<forall>q. P (heap m' q)"
proof (cases "\<exists>room g r. socketToRoom m sock = Some room \<and> games m room = Some g \<and>
                 status g = playing \<and> mplayers m sock = Some r")
  case False
  with assms(3) have "m' = m"
    by (auto simp: manager_hardDrop_def split: option.splits if_splits)
  with assms(2) show ?thesis by simp
next
  case True
  then obtain room g r where
    ctx: "socketToRoom m sock = Some room" "games m room = Some g" "status g = playing"
         "mplayers m sock = Some r"
    by blast
  from assms(3) ctx obtain g1 p1 res where hd: "hardDrop g (heap m r) = Some (g1, p1, res)"
    by (cases "hardDrop g (heap m r)") (auto simp: manager_hardDrop_def)
  from assms(2) have "P (heap m r)" by simp
  from hardDrop_preserves[OF assms(1) this hd] have p1: "P p1" .
  with assms(2) have h1: "\<forall>q. P (((heap m)(r := p1)) q)" by simp
  show ?thesis
  proof (cases res)
    case None
    with assms(3) ctx hd have "m' = m" by (simp add: manager_hardDrop_def)
    with assms(2) show ?thesis by simp
  next
    case (Some n)
    show ?thesis
    proof (cases "n > 0")
      case False
      with assms(3) ctx hd Some have "heap m' = (heap m)(r := p1)"
        by (auto simp: manager_hardDrop_def Let_def)
      with h1 show ?thesis by simp
    next
      case True
      with assms(3) ctx hd Some obtain h2 g2 where
        pen: "penaltyLoop ((heap m)(r := p1)) g1 r (n - 1) (players g1) = Some (h2, g2)" and
        m': "heap m' = h2"
        by (cases "addPenaltyLinesToOthers ((heap m)(r := p1)) g1 r (n - 1)")
           (auto simp: manager_hardDrop_def Let_def addPenaltyLinesToOthers_def)
      from penaltyLoop_preserves[OF assms(1) h1 pen] m' show ?thesis by simp
    qed
  qed
qed

lemma manager_tick_preserves:
  assumes "preserved P" "\<forall>q. P (heap m q)" "manager_tick m room = Some m'"
  shows "\<forall>q. P (heap m' q)"
proof -
  have tk: "tickLoop (heap m) g rs = Some (h', g') \<Longrightarrow> \<forall>q. P (h' q)" for g rs h' g'
    by (rule tickLoop_preserves[OF assms(1,2)])
  show ?thesis
    using assms(2,3)
    by (auto simp: manager_tick_def tick_def split: option.splits if_splits dest: tk)
qed

lemma step_preserves:
  assumes "preserved P" "\<forall>q. P (heap m q)" "step m e = Some m'"
  shows "\<forall>q. P (heap m' q)"
proof (cases e)
  case (JoinGame sock room playerName db)
  with assms(3) joinGame_preserves[OF assms(1,2)] show ?thesis by auto
next
  case (StartGame sock room sortRandom statusThrows)
  with assms(3) startGame_preserves[OF assms(1,2)] show ?thesis by auto
next
  case (MovePiece sock d)
  with assms(3) manager_movePiece_preserves[OF assms(1,2)] show ?thesis by auto
next
  case (RotatePiece sock)
  with assms(3) manager_rotatePiece_preserves[OF assms(1,2)] show ?thesis by auto
next
  case (HardDrop sock)
  with assms(3) manager_hardDrop_preserves[OF assms(1,2)] show ?thesis by auto
next
  case (Disconnect sock removeThrows statusThrows)
  with assms(3) handleDisconnect_preserves[OF assms(1,2)] show ?thesis by auto
next
  case (Tick room)
  with assms(3) manager_tick_preserves[OF assms(1,2)] show ?thesis by auto
qed

lemma run_preserves:
  assumes "preserved P"
  shows "\<forall>q. P (heap m q) \<Longrightarrow> run m es = Some m' \<Longrightarrow> \<forall>q. P (heap m' q)"
proof (induction es arbitrary: m)
  case Nil
  then show ?case by simp
next
  case (Cons e es)
  from Cons.prems(2) obtain m1 where s: "step m e = Some m1" and r: "run m1 es = Some m'"
    by (cases "step m e") auto
  from step_preserves[OF assms Cons.prems(1) s] have "\<forall>q. P (heap m1 q)" .
  from Cons.IH[OF this r] show ?case .
qed

lemma perform_preserves:
  assumes "preserved P" "\<forall>q. P (h q)" "perform h c = Some h'"
  shows "\<forall>q. P (h' q)"
proof (cases c)
  case (NewPlayer r i n room host)
  with assms(2,3) preservedD(9)[OF assms(1)] show ?thesis by auto
next
  case (CallStart sortRandom g)
  with assms(3) start_preserves[OF assms(1,2), of sortRandom g] show ?thesis by auto
next
  case (CallDropPiece g r)
  with assms(3) obtain g' where "dropPiece h g r = Some (h', g')" by auto
  from dropPiece_preserves[OF assms(1,2) this] show ?thesis .
next
  case (CallInterval g)
  with assms(3) obtain g' where "tickLoop h g (players g) = Some (h', g')"
    by (auto simp: tick_def)
  from tickLoop_preserves[OF assms(1,2) this] show ?thesis .
next
  case (CallMovePiece r d)
  with assms(3) obtain p ok where mv: "movePiece (h r) d = Some (p, ok)" and h': "h' = h(r := p)"
    by auto
  from assms(2) movePiece_preserves[OF assms(1) _ mv] have "P p" by simp
  with assms(2) h' show ?thesis by simp
next
  case (CallRotatePiece r)
  with assms(3) obtain p ok where mv: "rotatePiece (h r) = Some (p, ok)" and h': "h' = h(r := p)"
    by auto
  from assms(2) rotatePiece_preserves[OF assms(1) _ mv] have "P p" by simp
  with assms(2) h' show ?thesis by simp
next
  case (CallHardDrop g r)
  with assms(3) obtain g' p n where hd: "hardDrop g (h r) = Some (g', p, n)" and h': "h' = h(r := p)"
    by auto
  from assms(2) hardDrop_preserves[OF assms(1) _ hd] have "P p" by simp
  with assms(2) h' show ?thesis by simp
next
  case (CallAddPenaltyLines g r n)
  with assms(3) obtain g' where "penaltyLoop h g r n (players g) = Some (h', g')"
    by (auto simp: addPenaltyLinesToOthers_def)
  from penaltyLoop_preserves[OF assms(1,2) this] show ?thesis .
next
  case (SetHost r)
  with assms(2,3) preservedD(4)[OF assms(1)] show ?thesis by auto
qed

lemma calls_preserves:
  assumes "preserved P"
  shows "\<forall>q. P (h q) \<Longrightarrow> calls h cs = Some h' \<Longrightarrow> \<forall>q. P (h' q)"
proof (induction cs arbitrary: h)
  case Nil
  then show ?case by simp
next
  case (Cons c cs)
  from Cons.prems(2) obtain h1 where c: "perform h c = Some h1" and r: "calls h1 cs = Some h'"
    by (cases "perform h c") auto
  from perform_preserves[OF assms Cons.prems(1) c] have "\<forall>q. P (h1 q)" .
  from Cons.IH[OF this r] show ?case .
qed

lemma reachable_preserves:
  assumes "preserved P" "run GameManager es = Some m"
  shows "P (heap m q)"
proof -
  have "\<forall>q. P (heap GameManager q)"
    by (simp add: GameManager_def preservedD(9)[OF assms(1)])
  from run_preserves[OF assms(1) this assms(2)] show ?thesis by simp
qed

lemma preserved_score_inv: "preserved score_inv"
proof -
  have l: "lockPiece p = Some p' \<Longrightarrow> score_inv p \<Longrightarrow> score_inv p'" for p p'
    by (auto simp: lockPiece_def score_inv_def split: option.splits dest!: lockLoop_shape)
  have c: "clearLines p = Some (p', n) \<Longrightarrow> score_inv p \<Longrightarrow> score_inv p'" for p p' n
    by (auto simp: clearLines_def score_inv_def split: option.splits if_splits)
  show ?thesis
    unfolding preserved_def
  proof (intro conjI allI impI)
    fix p p' assume "score_inv p" "lockPiece p = Some p'"
    then show "score_inv p'" by (rule l[rotated])
  next
    fix p p' n assume "score_inv p" "clearLines p = Some (p', n)"
    then show "score_inv p'" by (rule c[rotated])
  qed (simp_all add: score_inv_def Player_def)
qed

lemma preserved_dims_inv: "preserved dims_inv"
proof -
  have l: "lockPiece p = Some p' \<Longrightarrow> dims_inv p \<Longrightarrow> dims_inv p'" for p p'
    by (auto simp: lockPiece_def split: option.splits dest: lockLoop_dims)
  have c: "clearLines p = Some (p', n) \<Longrightarrow> dims_inv p \<Longrightarrow> dims_inv p'" for p p' n
  proof -
    assume a: "clearLines p = Some (p', n)" and d: "dims_inv p"
    from a obtain b where b: "board p = Some b" by (cases "board p") (auto simp: clearLines_def)
    with d have "board_ok b" by (simp add: dims_inv_def)
    from clearLinesLoop_ok[OF this, of 19 0] obtain b' k where
      "clearLinesLoop b 19 0 = Some (b', k)" "board_ok b'" by auto
    with a b show "dims_inv p'"
      by (auto simp: clearLines_def dims_inv_def split: if_splits)
  qed
  show ?thesis
    unfolding preserved_def
  proof (intro conjI allI impI)
    fix p p' assume "dims_inv p" "lockPiece p = Some p'"
    then show "dims_inv p'" by (rule l[rotated])
  next
    fix p p' n assume "dims_inv p" "clearLines p = Some (p', n)"
    then show "dims_inv p'" by (rule c[rotated])
  qed (simp_all add: dims_inv_def Player_def board_ok_createEmptyBoard pushPenalty_ok)
qed

section \<open>Dealing and penalty rows\<close>

lemma calls_keep_score:
  assumes "\<forall>q. score (h q) = 100 * linesCleared (h q)" and "calls h cs = Some h'"
  shows "score (h' r) = 100 * linesCleared (h' r)"
  using calls_preserves[OF preserved_score_inv, of h cs h'] assms by (simp add: score_inv_def)

lemma deal_idem: "deal g (deal g p) = deal g p"
  by (simp add: deal_def)

lemma fold_deal:
  "fold (\<lambda>r h. h(r := deal g (h r))) rs h r = (if r \<in> set rs then deal g (h r) else h r)"
  by (induction rs arbitrary: h) (auto simp: deal_idem)

lemma distributePieces_eq:
  "distributePieces h g r = (if r \<in> set (players g) then deal g (h r) else h r)"
  using fold_deal[of g "players g" h r] by (simp add: distributePieces_def deal_def)

lemma start_heap:
  "fst (start sortRandom h g) r =
     (if r \<in> set (players g)
      then deal (g\<lparr>status := playing, pieceSequence := generatePieceSequence sortRandom\<rparr>) (h r)
      else h r)"
  by (simp add: start_def Let_def distributePieces_eq)

lemma pushPenalty_20:
  "length b = 20 \<Longrightarrow> pushPenalty b n = drop n b @ replicate (min n 20) (replicate 10 (Tag TX))"
  by (cases "n \<le> 20") (simp_all add: pushPenalty_def penaltyLine_def Let_def min_def)

lemma penaltyLoop_board:
  "penaltyLoop h g c n rs = Some (h', g') \<Longrightarrow> distinct rs \<Longrightarrow>
     pid (h' r) = pid (h r) \<and>
     board (h' r) =
       (if r \<in> set rs \<and> pid (h r) \<noteq> pid (h c) \<and> isAlive (h r)
        then map_option (\<lambda>b. pushPenalty b n) (board (h r)) else board (h r))"
proof (induction rs arbitrary: h g)
  case Nil
  then show ?case by simp
next
  case (Cons r0 rs)
  from Cons.prems(2) have d: "distinct rs" and nin: "r0 \<notin> set rs" by simp_all
  show ?case
  proof (cases "pid (h r0) \<noteq> pid (h c) \<and> isAlive (h r0)")
    case False
    with Cons.prems(1) have l: "penaltyLoop h g c n rs = Some (h', g')" by auto
    from Cons.IH[OF l d] False nin show ?thesis by auto
  next
    case True
    from True Cons.prems(1) obtain b where b: "board (h r0) = Some b"
      by (cases "board (h r0)") auto
    from True Cons.prems(1) b obtain can where
      cs: "canSpawnPiece ((h r0)\<lparr>board := Some (pushPenalty b n)\<rparr>) = Some can"
      by (cases "canSpawnPiece ((h r0)\<lparr>board := Some (pushPenalty b n)\<rparr>)") (auto simp: Let_def)
    define h1 where "h1 = (if can then h(r0 := (h r0)\<lparr>board := Some (pushPenalty b n)\<rparr>)
                           else h(r0 := (h r0)\<lparr>board := Some (pushPenalty b n), isAlive := False\<rparr>))"
    from True Cons.prems(1) b cs obtain g1 where l: "penaltyLoop h1 g1 c n rs = Some (h', g')"
      by (cases can) (auto simp: Let_def h1_def)
    have pid1: "pid (h1 q) = pid (h q)" for q by (simp add: h1_def)
    have oth: "q \<noteq> r0 \<Longrightarrow> h1 q = h q" for q by (simp add: h1_def)
    have b1: "board (h1 r0) = Some (pushPenalty b n)" by (simp add: h1_def)
    from Cons.IH[OF l d, unfolded pid1] have
      ih: "pid (h' r) = pid (h r)"
          "board (h' r) = (if r \<in> set rs \<and> pid (h r) \<noteq> pid (h c) \<and> isAlive (h1 r)
                           then map_option (\<lambda>b. pushPenalty b n) (board (h1 r)) else board (h1 r))"
      by simp_all
    show ?thesis
    proof (cases "r = r0")
      case True
      with ih nin b1 b \<open>pid (h r0) \<noteq> pid (h c) \<and> isAlive (h r0)\<close> show ?thesis by simp
    next
      case False
      with ih oth[of r] show ?thesis by simp
    qed
  qed
qed

section \<open>The hard drop loop ends\<close>

text \<open>
  On a board of the grid's dimensions no read fails, and a piece with a filled cell
  cannot sink below the grid: the loop of \<open>hardDrop\<close> returns, with the piece moved
  down only, at a position from which one row further down is not valid.
\<close>

lemma validCells_total:
  "board_ok b \<Longrightarrow> \<exists>v. validCells (Some b) x y cs = Some v"
proof (induction cs)
  case Nil
  then show ?case by auto
next
  case (Cons a cs)
  obtain row col where a: "a = (row, col)" by (cases a)
  show ?case
  proof (cases "y + int row < 0 \<or> y + int row \<ge> 20 \<or> x + int col < 0 \<or> x + int col \<ge> 10")
    case True
    with a show ?thesis by (auto simp: Let_def)
  next
    case False
    with Cons.prems have "nat (y + int row) < length b" by (auto simp: board_ok_def)
    then obtain v where "readCell b (nat (y + int row)) (nat (x + int col)) = Some v"
      by (simp add: readCell_def)
    with False a Cons.IH[OF Cons.prems] show ?thesis by (auto simp: Let_def)
  qed
qed

lemma validCells_True_row:
  "validCells bo x y cs = Some True \<Longrightarrow> (row, col) \<in> set cs \<Longrightarrow> y + int row < 20"
proof (induction cs)
  case Nil
  then show ?case by simp
next
  case (Cons a cs)
  obtain row' col' where a: "a = (row', col')" by (cases a)
  from Cons.prems(1) a have inb: "\<not> (y + int row' < 0 \<or> y + int row' \<ge> 20 \<or> x + int col' < 0 \<or> x + int col' \<ge> 10)"
    by (auto simp: Let_def split: if_splits)
  with Cons.prems(1) a have rest: "validCells bo x y cs = Some True"
    by (auto simp: Let_def split: option.splits if_splits)
  show ?case
  proof (cases "(row, col) = a")
    case True
    with a inb show ?thesis by auto
  next
    case False
    with Cons.prems(2) have "(row, col) \<in> set cs" by simp
    from Cons.IH[OF rest this] show ?thesis .
  qed
qed

lemma hardDropLoop_returns:
  assumes "board_ok b" and "cellsOf (shape pc) = Some cs" and "cs \<noteq> []"
  shows "\<exists>pc'. hardDropLoop (Some b) pc = Some pc' \<and>
               pc' = pc\<lparr>py := py pc'\<rparr> \<and> py pc \<le> py pc' \<and>
               isValidPosition (Some b) (Some pc') (px pc') (py pc' + 1) = Some False"
  using assms(2)
proof (induction "nat (20 - py pc)" arbitrary: pc rule: less_induct)
  case less
  from validCells_total[OF assms(1), of "px pc" "py pc + 1" cs] less.prems obtain v where
    v: "isValidPosition (Some b) (Some pc) (px pc) (py pc + 1) = Some v"
    by (auto simp: isValidPosition_def)
  show ?case
  proof (cases v)
    case False
    with v have "hardDropLoop (Some b) pc = Some pc"
      by (subst hardDropLoop.simps) simp
    with v False show ?thesis by auto
  next
    case True
    from assms(3) obtain row col where rc: "(row, col) \<in> set cs"
      by (cases cs) auto
    from v True less.prems have "validCells (Some b) (px pc) (py pc + 1) cs = Some True"
      by (simp add: isValidPosition_def)
    from validCells_True_row[OF this rc] have lt: "py pc < 19" by simp
    let ?pc = "pc\<lparr>py := py pc + 1\<rparr>"
    have "nat (20 - py ?pc) < nat (20 - py pc)" using lt by simp
    moreover have "cellsOf (shape ?pc) = Some cs" using less.prems by simp
    ultimately obtain pc' where
      r: "hardDropLoop (Some b) ?pc = Some pc'" "pc' = ?pc\<lparr>py := py pc'\<rparr>" "py ?pc \<le> py pc'"
         "isValidPosition (Some b) (Some pc') (px pc') (py pc' + 1) = Some False"
      using less.hyps[of ?pc] by blast
    from v True r(1) have "hardDropLoop (Some b) pc = Some pc'"
      by (subst hardDropLoop.simps) simp
    moreover from r(2) have "pc' = pc\<lparr>py := py pc'\<rparr>" by simp
    moreover from r(3) have "py pc \<le> py pc'" by simp
    ultimately show ?thesis using r(4) by blast
  qed
qed

section \<open>What the gravity step and the hard drop leave alone\<close>

text \<open>
  \<open>dropPiece\<close> changes no player object but the one it is called for, and \<open>hardDrop\<close>
  changes neither \<open>isAlive\<close> of its player nor the status of the room.
\<close>

lemma dropPiece_others:
  assumes "dropPiece h g r = Some (h', g')" and "q \<noteq> r"
  shows "h' q = h q"
  using assms
  by (auto simp: dropPiece_def Let_def split: option.splits if_splits)

lemma lockPiece_fields:
  "lockPiece p = Some p' \<Longrightarrow> \<exists>bo. p' = p\<lparr>board := bo\<rparr>"
  by (auto simp: lockPiece_def split: option.splits dest: lockLoop_shape)

lemma hardDrop_keeps_alive:
  assumes "hardDrop g p = Some (g', p', res)"
  shows "isAlive p' = isAlive p \<and> status g' = status g"
proof (cases "currentPiece p = None \<or> \<not> isAlive p")
  case True
  with assms show ?thesis by (auto simp: hardDrop_def split: option.splits)
next
  case False
  then obtain pc where pc: "currentPiece p = Some pc" "isAlive p" by auto
  from assms pc obtain pc' where lp: "hardDropLoop (board p) pc = Some pc'"
    by (cases "hardDropLoop (board p) pc") (auto simp: hardDrop_def)
  from assms pc lp obtain p1 where l: "lockPiece (p\<lparr>currentPiece := Some pc'\<rparr>) = Some p1"
    by (cases "lockPiece (p\<lparr>currentPiece := Some pc'\<rparr>)") (auto simp: hardDrop_def)
  from assms pc lp l obtain p2 n where c: "clearLines p1 = Some (p2, n)"
    by (cases "clearLines p1") (auto simp: hardDrop_def)
  from assms pc lp l c have s: "spawnNewPiece g p2 = Some (g', p')"
    by (cases "spawnNewPiece g p2") (auto simp: hardDrop_def)
  from lockPiece_fields[OF l] have "isAlive p1 = isAlive p" by auto
  moreover from c have "isAlive p2 = isAlive p1"
    by (auto simp: clearLines_def split: option.splits if_splits)
  moreover from s have "isAlive p' = isAlive p2" "status g' = status g"
    by (auto simp: spawnNewPiece_def Let_def split: option.splits)
  ultimately show ?thesis by simp
qed

section \<open>The server never raises\<close>

text \<open>
  Every state that \<open>run\<close> reaches, the handlers taking their turns one after the
  other, is well formed, and on a well-formed state every handler returns: no read
  of \<open>null\<close> or \<open>undefined\<close> fails and every loop ends. A handler that runs during
  an \<open>await\<close> of another can break this: see \<open>penalty_after_late_join\<close> below.
\<close>

lemma ex_enumerate:
  "(\<exists>x \<in> set (enumerate 0 xs). P (snd x)) \<longleftrightarrow> (\<exists>v \<in> set xs. P v)"
proof -
  have "set xs = snd ` set (enumerate 0 xs)"
    by (metis map_snd_enumerate set_map)
  then show ?thesis by simp
qed

lemma filledCells_nonempty:
  "filledCells s \<noteq> [] \<longleftrightarrow> (\<exists>r \<in> set s. \<exists>v \<in> set r. v \<noteq> 0)"
proof -
  have row: "(filter (\<lambda>(col, v). v \<noteq> 0) (enumerate 0 r) \<noteq> []) = (\<exists>v \<in> set r. v \<noteq> 0)" for r :: "nat list"
    using ex_enumerate[of r "\<lambda>v. v \<noteq> 0"] by (simp add: filter_empty_conv case_prod_unfold)
  have "filledCells s \<noteq> [] \<longleftrightarrow>
        (\<exists>x \<in> set (enumerate 0 s). filter (\<lambda>(col, v). v \<noteq> 0) (enumerate 0 (snd x)) \<noteq> [])"
    by (simp add: filledCells_def case_prod_unfold)
  also have "\<dots> \<longleftrightarrow> (\<exists>r \<in> set s. filter (\<lambda>(col, v). v \<noteq> 0) (enumerate 0 r) \<noteq> [])"
    by (rule ex_enumerate)
  finally show ?thesis unfolding row .
qed

lemma mset_shuffled: "mset (shuffled keys xs) = mset xs"
proof -
  let ?f = "\<lambda>(i, x). if i < length keys then keys ! i else (0::nat)"
  have "mset (shuffled keys xs) = image_mset snd (mset (sort_key ?f (enumerate 0 xs)))"
    by (simp add: shuffled_def)
  also have "\<dots> = image_mset snd (mset (enumerate 0 xs))"
    by simp
  also have "\<dots> = mset (map snd (enumerate 0 xs))"
    by (simp only: mset_map)
  also have "\<dots> = mset xs"
    by (simp only: map_snd_enumerate)
  finally show ?thesis .
qed

lemma set_shuffled: "set (shuffled keys xs) = set xs"
  using mset_shuffled[of keys xs] by (rule mset_eq_setD)

lemma length_shuffled: "length (shuffled keys xs) = length xs"
  using mset_shuffled[of keys xs] by (rule mset_eq_length)

lemma set_generatePieceSequence: "set (generatePieceSequence sortRandom) = set pieces"
  by (auto simp: generatePieceSequence_def set_shuffled)

lemma length_generatePieceSequence: "length (generatePieceSequence sortRandom) = 70"
proof -
  have a: "length (shuffled (sortRandom i) pieces) = 7" for i
    by (simp add: length_shuffled pieces_def)
  have "length (generatePieceSequence sortRandom)
          = sum_list (map (\<lambda>i. length (shuffled (sortRandom i) pieces)) [0 ..< 10])"
    by (simp add: generatePieceSequence_def length_concat comp_def)
  also have "\<dots> = sum_list (map (\<lambda>i. 7) [0 ..< 10])"
    by (simp only: a)
  also have "\<dots> = 70"
    by (simp add: sum_list_triv)
  finally show ?thesis .
qed

lemma wf_matrixD:
  "wf_matrix v \<Longrightarrow> \<exists>s. v = Matrix s \<and> wf_shape s \<and> cellsOf v = Some (filledCells s)"
  by (cases v) (simp_all add: wf_matrix_def cellsOf_def)

lemma wf_shape_getShape:
  assumes "t \<in> set pieces \<or> t = Undefined"
  shows "wf_matrix (getShape t)"
proof -
  from assms have "t = TI \<or> t = TO \<or> t = TT \<or> t = TS \<or> t = TZ \<or> t = TJ \<or> t = TL \<or> t = Undefined"
    by (simp add: pieces_def)
  then show ?thesis
    by (elim disjE)
       (simp_all add: wf_matrix_def wf_shape_def getShape_def shapes_def ownShapes_def
          objectPrototype_def filledCells_nonempty)
qed

lemma seqAt_kind:
  assumes "set s \<subseteq> set pieces"
  shows "seqAt s i \<in> set pieces \<or> seqAt s i = Undefined"
  using assms by (auto simp: seqAt_def)

lemma wf_piece_Piece:
  assumes "set s \<subseteq> set pieces"
  shows "wf_piece (Some (Piece (seqAt s i)))"
  using wf_shape_getShape[OF seqAt_kind[OF assms]] by (simp add: wf_piece_def Piece_def)

lemma rotate_wf:
  assumes "wf_matrix (shape pc)"
  shows "\<exists>pc'. Piece_rotate pc = Some pc' \<and> wf_matrix (shape pc')"
proof (cases "ptype pc = TO")
  case True
  with assms show ?thesis by (simp add: Piece_rotate_def Let_def)
next
  case False
  from wf_matrixD[OF assms] obtain s0 where s0: "shape pc = Matrix s0" and wfs: "wf_shape s0"
    by blast
  let ?s = "s0"
  let ?n = "length ?s"
  from wfs obtain r0 rs where s: "?s = r0 # rs" by (cases ?s) (auto simp: wf_shape_def)
  from wfs s have n0: "length r0 = ?n" by (auto simp: wf_shape_def)
  let ?t = "map (\<lambda>col. map (\<lambda>r. if col < length r then r ! col else 0) (rev ?s)) [0 ..< ?n]"
  from False s0 s n0 have rot: "Piece_rotate pc = Some ((Piece (ptype pc))\<lparr>px := px pc, py := py pc, shape := Matrix ?t\<rparr>)"
    by (simp add: Piece_rotate_def Let_def)
  from wfs obtain r v where rv: "r \<in> set ?s" "v \<in> set r" "v \<noteq> 0"
    unfolding wf_shape_def filledCells_nonempty by blast
  from rv(1) obtain i where i: "i < ?n" "?s ! i = r" by (auto simp: in_set_conv_nth)
  from rv(2) obtain j where j0: "j < length r" "r ! j = v" by (auto simp: in_set_conv_nth)
  from wfs rv(1) have "length r = ?n" by (simp add: wf_shape_def)
  with i j0 rv(3) have ij: "i < ?n" "j < length (?s ! i)" "?s ! i ! j \<noteq> 0" and j: "j < ?n"
    by simp_all
  have t1: "?t \<noteq> []" using s by simp
  have t2: "\<forall>r \<in> set ?t. length r = length ?t" by auto
  have t3: "filledCells ?t \<noteq> []"
  proof -
    have tj: "?t ! j = map (\<lambda>r. if j < length r then r ! j else 0) (rev ?s)"
      using j by simp
    have mem: "?s ! i \<in> set (rev ?s)" using ij(1) by simp
    have "(\<lambda>r. if j < length r then r ! j else 0) (?s ! i) \<in> set (?t ! j)"
      unfolding tj set_map using mem by (rule imageI)
    with ij(2) have v: "?s ! i ! j \<in> set (?t ! j)" by simp
    have r: "?t ! j \<in> set ?t" using j by (intro nth_mem) simp
    from r v ij(3) have "\<exists>r \<in> set ?t. \<exists>v \<in> set r. v \<noteq> 0" by (intro bexI[OF _ r] bexI[OF _ v])
    then show ?thesis unfolding filledCells_nonempty .
  qed
  from t1 t2 t3 have "wf_shape ?t" unfolding wf_shape_def by (intro conjI)
  with rot show ?thesis by (simp add: wf_matrix_def)
qed

lemma valid_total:
  assumes "board_ok b" "wf_matrix (shape pc)"
  shows "\<exists>v. isValidPosition (Some b) (Some pc) x y = Some v"
proof -
  from wf_matrixD[OF assms(2)] obtain s where "cellsOf (shape pc) = Some (filledCells s)"
    by blast
  with validCells_total[OF assms(1), of x y "filledCells s"] show ?thesis
    by (simp add: isValidPosition_def)
qed

lemma wf_playerD:
  assumes "wf_player p" "currentPiece p = Some pc"
  shows "\<exists>b np. board p = Some b \<and> board_ok b \<and> nextPiece p = Some np \<and>
                wf_matrix (shape pc) \<and> wf_matrix (shape np)"
  using assms by (auto simp: wf_player_def wf_piece_def dims_inv_def)

lemma wf_player_piece:
  assumes "wf_player p" "currentPiece p \<noteq> None" "wf_matrix (shape pc)"
  shows "wf_player (p\<lparr>currentPiece := Some pc\<rparr>)"
  using assms by (auto simp: wf_player_def wf_piece_def dims_inv_def)

lemma movePiece_wf:
  assumes "wf_player p"
  shows "\<exists>p' ok. movePiece p d = Some (p', ok) \<and> wf_player p' \<and>
                 (currentPiece p \<noteq> None \<longrightarrow> currentPiece p' \<noteq> None)"
proof (cases "currentPiece p")
  case None
  with assms show ?thesis by (auto simp: movePiece_def)
next
  case (Some pc)
  from wf_playerD[OF assms Some] obtain b where b: "board p = Some b" "board_ok b"
    and w: "wf_matrix (shape pc)" by blast
  have mv: "shape q = shape pc \<Longrightarrow> wf_player (p\<lparr>currentPiece := Some q\<rparr>)" for q
    using wf_player_piece[OF assms, of q] Some w by simp
  show ?thesis
  proof (cases "isAlive p")
    case False
    with Some assms show ?thesis by (auto simp: movePiece_def)
  next
    case True
    show ?thesis
    proof (cases d)
      case left
      from valid_total[OF b(2) w, of "px pc - 1" "py pc"] obtain v where
        "isValidPosition (Some b) (Some pc) (px pc - 1) (py pc) = Some v" by blast
      with Some True left b assms mv show ?thesis by (cases v) (auto simp: movePiece_def intro: mv)
    next
      case right
      from valid_total[OF b(2) w, of "px pc + 1" "py pc"] obtain v where
        "isValidPosition (Some b) (Some pc) (px pc + 1) (py pc) = Some v" by blast
      with Some True right b assms mv show ?thesis by (cases v) (auto simp: movePiece_def intro: mv)
    next
      case down
      from valid_total[OF b(2) w, of "px pc" "py pc + 1"] obtain v where
        "isValidPosition (Some b) (Some pc) (px pc) (py pc + 1) = Some v" by blast
      with Some True down b assms mv show ?thesis by (cases v) (auto simp: movePiece_def intro: mv)
    next
      case other
      with Some True assms show ?thesis by (auto simp: movePiece_def)
    qed
  qed
qed

lemma rotatePiece_wf:
  assumes "wf_player p"
  shows "\<exists>p' ok. rotatePiece p = Some (p', ok) \<and> wf_player p' \<and>
                 (currentPiece p \<noteq> None \<longrightarrow> currentPiece p' \<noteq> None)"
proof (cases "currentPiece p")
  case None
  with assms show ?thesis by (auto simp: rotatePiece_def)
next
  case (Some pc)
  from wf_playerD[OF assms Some] obtain b where b: "board p = Some b" "board_ok b"
    and w: "wf_matrix (shape pc)" by blast
  show ?thesis
  proof (cases "isAlive p")
    case False
    with Some assms show ?thesis by (auto simp: rotatePiece_def)
  next
    case True
    from rotate_wf[OF w] obtain rotated where
      r: "Piece_rotate pc = Some rotated" "wf_matrix (shape rotated)" by blast
    from valid_total[OF b(2) r(2), of "px pc" "py pc"] obtain v where
      v: "isValidPosition (Some b) (Some rotated) (px pc) (py pc) = Some v" by blast
    have "wf_player (p\<lparr>currentPiece := Some rotated\<rparr>)"
      using wf_player_piece[OF assms _ r(2)] Some by simp
    with Some True b r v assms show ?thesis by (cases v) (auto simp: rotatePiece_def)
  qed
qed

lemma lockPiece_wf:
  assumes "wf_player p" "currentPiece p = Some pc"
  shows "\<exists>p' b'. lockPiece p = Some p' \<and> wf_player p' \<and> board p' = Some b' \<and>
                 p' = p\<lparr>board := Some b'\<rparr>"
proof -
  from wf_playerD[OF assms] obtain b where b: "board p = Some b" "board_ok b"
    and w: "wf_matrix (shape pc)" by blast
  from wf_matrixD[OF w] obtain s where cs: "cellsOf (shape pc) = Some (filledCells s)" by blast
  from lockLoop_total[OF b, of pc "filledCells s"] obtain p' where
    l: "lockLoop p pc (filledCells s) = Some p'" by blast
  from lockLoop_shape[OF l] obtain bo where bo: "p' = p\<lparr>board := bo\<rparr>" by blast
  from assms(1) have "dims_inv p" by (simp add: wf_player_def)
  from lockLoop_dims[OF this l] have d: "dims_inv p'" .
  have keep: "lockLoop q pc cs = Some q' \<Longrightarrow> board q \<noteq> None \<Longrightarrow> board q' \<noteq> None" for q q' cs
    by (induction cs arbitrary: q) (auto simp: Let_def split: option.splits if_splits)
  from keep[OF l] b obtain b' where b': "board p' = Some b'" by auto
  with bo have eq: "p' = p\<lparr>board := Some b'\<rparr>" by simp
  from assms(1) d eq have "wf_player p'" by (auto simp: wf_player_def)
  with l b' eq assms(2) cs show ?thesis by (auto simp: lockPiece_def)
qed

lemma clearLines_wf:
  assumes "wf_player p" "board p = Some b"
  shows "\<exists>p' n b'. clearLines p = Some (p', n) \<and> wf_player p' \<and> board p' = Some b' \<and>
                   currentPiece p' = currentPiece p \<and> nextPiece p' = nextPiece p \<and>
                   isAlive p' = isAlive p"
proof -
  from assms have ok: "board_ok b" by (simp add: wf_player_def dims_inv_def)
  from clearLinesLoop_ok[OF ok, of 19 0] obtain b' k where
    c: "clearLinesLoop b 19 0 = Some (b', k)" "board_ok b'" by auto
  with assms show ?thesis
    by (auto simp: clearLines_def wf_player_def dims_inv_def)
qed

lemma spawnNewPiece_wf:
  assumes "wf_player p" "board p = Some b" "nextPiece p = Some np"
    and "set (pieceSequence g) \<subseteq> set pieces"
  shows "\<exists>g' p' pc'. spawnNewPiece g p = Some (g', p') \<and> wf_player p' \<and>
                     currentPiece p' = Some pc' \<and> isAlive p' = isAlive p \<and>
                     players g' = players g \<and> status g' = status g \<and>
                     pieceSequence g' = pieceSequence g"
proof -
  from assms have "wf_matrix (shape np)" by (simp add: wf_player_def wf_piece_def)
  with assms wf_piece_Piece[OF assms(4), of "Suc (currentPieceIndex g)"] show ?thesis
    by (simp add: spawnNewPiece_def Let_def wf_player_def wf_piece_def dims_inv_def)
qed

lemma hardDrop_wf:
  assumes "wf_player p" and "set (pieceSequence g) \<subseteq> set pieces"
  shows "\<exists>g' p' res. hardDrop g p = Some (g', p', res) \<and> wf_player p' \<and>
                    (currentPiece p \<noteq> None \<longrightarrow> currentPiece p' \<noteq> None) \<and>
                    players g' = players g \<and> status g' = status g \<and>
                    pieceSequence g' = pieceSequence g"
proof (cases "currentPiece p")
  case None
  with assms(1) show ?thesis by (auto simp: hardDrop_def)
next
  case (Some pc)
  show ?thesis
  proof (cases "isAlive p")
    case False
    with Some assms(1) show ?thesis by (auto simp: hardDrop_def)
  next
    case True
    from wf_playerD[OF assms(1) Some] obtain b where b: "board p = Some b" "board_ok b"
      and w: "wf_matrix (shape pc)" by blast
    from wf_matrixD[OF w] obtain s0 where cs: "cellsOf (shape pc) = Some (filledCells s0)"
      and ne: "filledCells s0 \<noteq> []" by (auto simp: wf_shape_def)
    from hardDropLoop_returns[OF b(2) cs ne] obtain pc' where
      lp: "hardDropLoop (Some b) pc = Some pc'" "pc' = pc\<lparr>py := py pc'\<rparr>" by blast
    from lp(2) w have "wf_matrix (shape pc')" by (metis piece.select_convs(4) piece.surjective piece.update_convs(3))
    with assms(1) Some have w0: "wf_player (p\<lparr>currentPiece := Some pc'\<rparr>)"
      by (intro wf_player_piece) simp_all
    from lockPiece_wf[OF w0, of pc'] obtain p1 b1 where
      l: "lockPiece (p\<lparr>currentPiece := Some pc'\<rparr>) = Some p1" "wf_player p1" "board p1 = Some b1"
         "p1 = p\<lparr>currentPiece := Some pc'\<rparr>\<lparr>board := Some b1\<rparr>" by auto
    from clearLines_wf[OF l(2,3)] obtain p2 n b2 where
      c: "clearLines p1 = Some (p2, n)" "wf_player p2" "board p2 = Some b2"
         "nextPiece p2 = nextPiece p1" by blast
    from wf_playerD[OF assms(1) Some] l(4) c(4) obtain np where np: "nextPiece p2 = Some np" by auto
    from spawnNewPiece_wf[OF c(2,3) np assms(2)] obtain g' p' pc2 where
      s: "spawnNewPiece g p2 = Some (g', p')" "wf_player p'" "currentPiece p' = Some pc2"
         "players g' = players g" "status g' = status g" "pieceSequence g' = pieceSequence g"
      by blast
    from Some True b lp(1) l(1) c(1) s show ?thesis by (auto simp: hardDrop_def)
  qed
qed

lemma keeps_refl: "keeps h h"
  by (simp add: keeps_def)

lemma keeps_trans: "keeps h h1 \<Longrightarrow> keeps h1 h2 \<Longrightarrow> keeps h h2"
  by (simp add: keeps_def)

lemma keeps_upd:
  "(currentPiece (h r) \<noteq> None \<longrightarrow> currentPiece p \<noteq> None) \<Longrightarrow> keeps h (h(r := p))"
  by (simp add: keeps_def)

lemma checkGameEnd_shape:
  "players (checkGameEnd h g) = players g \<and>
   (status (checkGameEnd h g) = playing \<longrightarrow> status g = playing) \<and>
   pieceSequence (checkGameEnd h g) = pieceSequence g"
  by (simp add: checkGameEnd_def endGame_def Let_def)

lemma dropPiece_wf:
  assumes "\<forall>q. wf_player (h q)" and "set (pieceSequence g) \<subseteq> set pieces"
  shows "\<exists>h' g'. dropPiece h g r = Some (h', g') \<and> (\<forall>q. wf_player (h' q)) \<and> keeps h h' \<and>
                 players g' = players g \<and> (status g' = playing \<longrightarrow> status g = playing) \<and>
                 pieceSequence g' = pieceSequence g"
proof (cases "currentPiece (h r)")
  case None
  with assms(1) show ?thesis by (auto simp: dropPiece_def keeps_refl)
next
  case (Some pc)
  from assms(1) have wr: "wf_player (h r)" by simp
  from wf_playerD[OF wr Some] obtain b np where b: "board (h r) = Some b" "board_ok b"
    and np: "nextPiece (h r) = Some np" and w: "wf_matrix (shape pc)" by blast
  from valid_total[OF b(2) w, of "px pc" "py pc + 1"] obtain v where
    v: "isValidPosition (Some b) (Some pc) (px pc) (py pc + 1) = Some v" by blast
  show ?thesis
  proof (cases v)
    case True
    let ?p = "(h r)\<lparr>currentPiece := Some (pc\<lparr>py := py pc + 1\<rparr>)\<rparr>"
    have "wf_player ?p" using wf_player_piece[OF wr, of "pc\<lparr>py := py pc + 1\<rparr>"] Some w by simp
    with assms(1) have "\<forall>q. wf_player ((h(r := ?p)) q)" by simp
    moreover have "keeps h (h(r := ?p))" by (rule keeps_upd) simp
    moreover from Some b v True have "dropPiece h g r = Some (h(r := ?p), g)"
      by (simp add: dropPiece_def)
    ultimately show ?thesis by blast
  next
    case False
    from lockPiece_wf[OF wr Some] obtain p1 b1 where
      l: "lockPiece (h r) = Some p1" "wf_player p1" "board p1 = Some b1"
         "p1 = (h r)\<lparr>board := Some b1\<rparr>" by blast
    from clearLines_wf[OF l(2,3)] obtain p2 n b2 where
      c: "clearLines p1 = Some (p2, n)" "wf_player p2" "board p2 = Some b2"
         "nextPiece p2 = nextPiece p1" by blast
    from np l(4) c(4) have np2: "nextPiece p2 = Some np" by simp
    from spawnNewPiece_wf[OF c(2,3) np2 assms(2)] obtain g1 p3 pc3 where
      s: "spawnNewPiece g p2 = Some (g1, p3)" "wf_player p3" "currentPiece p3 = Some pc3"
         "players g1 = players g" "status g1 = status g" "pieceSequence g1 = pieceSequence g"
      by blast
    from wf_playerD[OF s(2,3)] obtain b3 where b3: "board p3 = Some b3" "board_ok b3"
      and w3: "wf_matrix (shape pc3)" by blast
    from valid_total[OF b3(2) w3, of 3 0] b3 s(3) obtain can where
      can: "canSpawnPiece p3 = Some can" by (auto simp: canSpawnPiece_def)
    show ?thesis
    proof (cases can)
      case True
      from assms(1) s(2) have "\<forall>q. wf_player ((h(r := p3)) q)" by simp
      moreover have "keeps h (h(r := p3))" using s(3) by (intro keeps_upd) simp
      moreover from Some b v False l(1) c(1) s(1) can True
      have "dropPiece h g r = Some (h(r := p3), g1)" by (simp add: dropPiece_def)
      ultimately show ?thesis using s(4,5,6) by auto
    next
      case nocan: False
      let ?h = "h(r := p3\<lparr>isAlive := False\<rparr>)"
      from s(2) have "wf_player (p3\<lparr>isAlive := False\<rparr>)" by (simp add: wf_player_def dims_inv_def)
      with assms(1) have "\<forall>q. wf_player (?h q)" by simp
      moreover have "keeps h ?h" using s(3) by (intro keeps_upd) simp
      moreover from Some b v False l(1) c(1) s(1) can nocan
      have "dropPiece h g r = Some (?h, checkGameEnd ?h g1)" by (simp add: dropPiece_def Let_def)
      ultimately show ?thesis using s(4,5,6) checkGameEnd_shape[of ?h g1] by auto
    qed
  qed
qed

lemma tickLoop_wf:
  "\<forall>q. wf_player (h q) \<Longrightarrow> set (pieceSequence g) \<subseteq> set pieces \<Longrightarrow>
   \<exists>h' g'. tickLoop h g rs = Some (h', g') \<and> (\<forall>q. wf_player (h' q)) \<and> keeps h h' \<and>
           players g' = players g \<and> (status g' = playing \<longrightarrow> status g = playing) \<and>
           pieceSequence g' = pieceSequence g"
proof (induction rs arbitrary: h g)
  case Nil
  then show ?case by (auto simp: keeps_refl)
next
  case (Cons r rs)
  show ?case
  proof (cases "isAlive (h r)")
    case False
    with Cons.IH[OF Cons.prems] show ?thesis by simp
  next
    case True
    from dropPiece_wf[OF Cons.prems, of r] obtain h1 g1 where
      d: "dropPiece h g r = Some (h1, g1)" "\<forall>q. wf_player (h1 q)" "keeps h h1"
         "players g1 = players g" "status g1 = playing \<longrightarrow> status g = playing"
         "pieceSequence g1 = pieceSequence g" by blast
    from d(6) Cons.prems(2) have sq: "set (pieceSequence g1) \<subseteq> set pieces" by simp
    from Cons.IH[OF d(2) sq] obtain h' g' where
      t: "tickLoop h1 g1 rs = Some (h', g')" "\<forall>q. wf_player (h' q)" "keeps h1 h'"
         "players g' = players g1" "status g' = playing \<longrightarrow> status g1 = playing"
         "pieceSequence g' = pieceSequence g1" by blast
    from True d(1) t(1) have "tickLoop h g (r # rs) = Some (h', g')" by simp
    with t d keeps_trans[OF d(3) t(3)] show ?thesis by auto
  qed
qed

lemma penaltyLoop_wf:
  "\<forall>q. wf_player (h q) \<Longrightarrow> \<forall>r \<in> set rs. currentPiece (h r) \<noteq> None \<Longrightarrow>
   \<exists>h' g'. penaltyLoop h g c n rs = Some (h', g') \<and> (\<forall>q. wf_player (h' q)) \<and> keeps h h' \<and>
           players g' = players g \<and> (status g' = playing \<longrightarrow> status g = playing) \<and>
           pieceSequence g' = pieceSequence g"
proof (induction rs arbitrary: h g)
  case Nil
  then show ?case by (auto simp: keeps_refl)
next
  case (Cons r rs)
  from Cons.prems(2) have rest: "\<forall>r \<in> set rs. currentPiece (h r) \<noteq> None" by simp
  show ?case
  proof (cases "pid (h r) \<noteq> pid (h c) \<and> isAlive (h r)")
    case False
    from Cons.IH[OF Cons.prems(1) rest, of g] False show ?thesis by auto
  next
    case True
    from Cons.prems(2) obtain pc where pc: "currentPiece (h r) = Some pc" by auto
    from Cons.prems(1) have wr: "wf_player (h r)" by simp
    from wf_playerD[OF wr pc] obtain b where b: "board (h r) = Some b" "board_ok b"
      and w: "wf_matrix (shape pc)" by blast
    let ?p1 = "(h r)\<lparr>board := Some (pushPenalty b n)\<rparr>"
    have ok1: "board_ok (pushPenalty b n)" using b(2) by (rule pushPenalty_ok)
    from wr ok1 have w1: "wf_player ?p1" by (simp add: wf_player_def dims_inv_def)
    from valid_total[OF ok1 w, of 3 0] pc obtain can where
      can: "canSpawnPiece ?p1 = Some can" by (auto simp: canSpawnPiece_def)
    define h1 where "h1 = (if can then h(r := ?p1) else h(r := ?p1\<lparr>isAlive := False\<rparr>))"
    define g1 where "g1 = (if can then g else checkGameEnd h1 g)"
    from w1 have "wf_player (?p1\<lparr>isAlive := False\<rparr>)" by (simp add: wf_player_def dims_inv_def)
    with w1 Cons.prems(1) have wf1: "\<forall>q. wf_player (h1 q)" by (simp add: h1_def)
    have k1: "keeps h h1" by (simp add: h1_def keeps_def)
    with rest have rest1: "\<forall>r \<in> set rs. currentPiece (h1 r) \<noteq> None" by (simp add: keeps_def)
    have g1s: "players g1 = players g" "status g1 = playing \<longrightarrow> status g = playing"
      "pieceSequence g1 = pieceSequence g"
      using checkGameEnd_shape[of h1 g] by (simp_all add: g1_def)
    from True b can have step: "penaltyLoop h g c n (r # rs) = penaltyLoop h1 g1 c n rs"
      by (cases can) (simp_all add: Let_def h1_def g1_def)
    from Cons.IH[OF wf1 rest1, of g1] obtain h' g' where
      t: "penaltyLoop h1 g1 c n rs = Some (h', g')" "\<forall>q. wf_player (h' q)" "keeps h1 h'"
         "players g' = players g1" "status g' = playing \<longrightarrow> status g1 = playing"
         "pieceSequence g' = pieceSequence g1" by blast
    with step g1s keeps_trans[OF k1 t(3)] show ?thesis by auto
  qed
qed

lemma wf_manager_init: "wf_manager GameManager"
  by (simp add: wf_manager_def GameManager_def wf_player_def Player_def dims_inv_def wf_piece_def)

lemma wf_manager_heap:
  assumes "wf_manager m" "\<forall>q. wf_player (h' q)" "keeps (heap m) h'"
  shows "wf_manager (m\<lparr>heap := h'\<rparr>)"
  using assms by (auto simp: wf_manager_def wf_room_def keeps_def)

lemma wf_manager_room:
  assumes "wf_manager m" "games m room = Some g" "\<forall>q. wf_player (h' q)" "keeps (heap m) h'"
    and "set (players g') \<subseteq> set (players g)"
    and "status g' = playing \<longrightarrow> status g = playing"
    and "pieceSequence g' = pieceSequence g"
  shows "wf_manager (m\<lparr>heap := h', games := (games m)(room \<mapsto> g')\<rparr>)"
proof -
  from assms(1,2) have g: "wf_room m g" by (simp add: wf_manager_def)
  have "wf_room (m\<lparr>heap := h', games := (games m)(room \<mapsto> g')\<rparr>) x"
    if "x = g' \<or> (\<exists>room'. games m room' = Some x)" for x
  proof -
    from that assms(1) g have "x = g' \<or> wf_room m x" by (auto simp: wf_manager_def)
    then show ?thesis
    proof
      assume "x = g'"
      with g assms(4,5,6,7) show ?thesis by (auto simp: wf_room_def keeps_def)
    next
      assume "wf_room m x"
      with assms(4) show ?thesis by (auto simp: wf_room_def keeps_def)
    qed
  qed
  with assms(3) show ?thesis by (auto simp: wf_manager_def)
qed

lemma wf_manager_maps:
  assumes "wf_manager m"
  shows "wf_manager (m\<lparr>mplayers := a, socketToRoom := b\<rparr>)"
  using assms by (simp add: wf_manager_def wf_room_def)

lemma wf_manager_delete:
  assumes "wf_manager m"
  shows "wf_manager (m\<lparr>games := (games m)(room := None)\<rparr>)"
  using assms by (auto simp: wf_manager_def wf_room_def)

lemma joinGame_wf:
  assumes "wf_manager m"
  shows "wf_manager (fst (joinGame m sock room playerName db))"
proof -
  have new: "wf_player (Player a b c d)" for a b c d
    by (simp add: wf_player_def Player_def dims_inv_def wf_piece_def)
  have empty: "wf_manager (m\<lparr>games := (games m)(room \<mapsto> Game room)\<rparr>)"
    using assms by (auto simp: wf_manager_def wf_room_def Game_def)
  have add: "wf_manager (m1\<lparr>heap := (heap m1)(nextRef m1 := Player sock playerName room host),
                nextRef := Suc (nextRef m1),
                games := (games m1)(room \<mapsto> addPlayer g (nextRef m1)),
                mplayers := mp, socketToRoom := sr\<rparr>)"
    if "wf_manager m1" "games m1 room = Some g" "status g \<noteq> playing" for m1 g host mp sr
  proof -
    from that(1,2) have g: "wf_room m1 g" by (simp add: wf_manager_def)
    have fresh: "wf_room m1 x \<Longrightarrow> r \<in> set (players x) \<Longrightarrow> r \<noteq> nextRef m1" for x r
      by (auto simp: wf_room_def)
    from that(1) new have "\<forall>q. wf_player (((heap m1)(nextRef m1 := Player sock playerName room host)) q)"
      by (simp add: wf_manager_def)
    moreover have "wf_room (m1\<lparr>heap := (heap m1)(nextRef m1 := Player sock playerName room host),
                nextRef := Suc (nextRef m1),
                games := (games m1)(room \<mapsto> addPlayer g (nextRef m1)),
                mplayers := mp, socketToRoom := sr\<rparr>) x"
      if x: "x = addPlayer g (nextRef m1) \<or> (\<exists>room'. games m1 room' = Some x)" for x
    proof -
      from x \<open>wf_manager m1\<close> have "x = addPlayer g (nextRef m1) \<or> wf_room m1 x"
        by (auto simp: wf_manager_def)
      then show ?thesis
      proof
        assume "x = addPlayer g (nextRef m1)"
        with g \<open>status g \<noteq> playing\<close> show ?thesis
          by (auto simp: wf_room_def addPlayer_def less_Suc_eq)
      next
        assume w: "wf_room m1 x"
        with fresh[OF w] show ?thesis by (auto simp: wf_room_def less_Suc_eq)
      qed
    qed
    ultimately show ?thesis by (auto simp: wf_manager_def)
  qed
  show ?thesis
  proof (cases "games m room")
    case None
    with assms empty add[OF empty, of "Game room"] show ?thesis
      by (auto simp: joinGame_def Let_def Game_def)
  next
    case (Some g)
    with assms add[OF assms Some] show ?thesis
      by (auto simp: joinGame_def Let_def)
  qed
qed

lemma startGame_wf:
  assumes "wf_manager m"
  shows "wf_manager (fst (startGame m sock room sortRandom statusThrows))"
proof (cases "snd (startGame m sock room sortRandom statusThrows) = Done")
  case False
  have "fst (startGame m sock room sortRandom statusThrows) = m \<or>
        snd (startGame m sock room sortRandom statusThrows) = Done"
    by (auto simp: startGame_def Let_def split: option.splits prod.splits)
  with False assms show ?thesis by auto
next
  case True
  then obtain g where g: "games m room = Some g"
    and res: "fst (startGame m sock room sortRandom statusThrows)
                = m\<lparr>heap := fst (start sortRandom (heap m) g),
                     games := (games m)(room \<mapsto> snd (start sortRandom (heap m) g))\<rparr>"
    by (auto simp: startGame_def Let_def split: option.splits if_splits prod.splits)
  let ?g2 = "g\<lparr>status := playing, pieceSequence := generatePieceSequence sortRandom\<rparr>"
  let ?h = "fst (start sortRandom (heap m) g)"
  let ?g = "snd (start sortRandom (heap m) g)"
  have hq: "?h q = (if q \<in> set (players g) then deal ?g2 (heap m q) else heap m q)" for q
    by (rule start_heap)
  have sq: "set (generatePieceSequence sortRandom) \<subseteq> set pieces"
    by (simp add: set_generatePieceSequence)
  have d: "wf_player (deal ?g2 p)" for p
    using wf_piece_Piece[OF sq]
    by (simp add: deal_def wf_player_def dims_inv_def board_ok_createEmptyBoard)
  from assms have wf: "\<forall>q. wf_player (?h q)" by (simp add: hq d wf_manager_def)
  have k: "keeps (heap m) ?h" by (simp add: keeps_def hq deal_def)
  have pl: "players ?g = players g" "pieceSequence ?g = generatePieceSequence sortRandom"
    by (simp_all add: start_def Let_def startGameLoop_def)
  from assms g have wg: "wf_room m g" by (simp add: wf_manager_def)
  have "wf_room (m\<lparr>heap := ?h, games := (games m)(room \<mapsto> ?g)\<rparr>) x"
    if "x = ?g \<or> (\<exists>room'. games m room' = Some x)" for x
  proof -
    from that assms have "x = ?g \<or> wf_room m x" by (auto simp: wf_manager_def)
    then show ?thesis
    proof
      assume "x = ?g"
      with wg pl sq show ?thesis by (auto simp: wf_room_def hq deal_def)
    next
      assume "wf_room m x"
      with k show ?thesis by (auto simp: wf_room_def keeps_def)
    qed
  qed
  with wf have "wf_manager (m\<lparr>heap := ?h, games := (games m)(room \<mapsto> ?g)\<rparr>)"
    by (auto simp: wf_manager_def)
  with res show ?thesis by simp
qed

lemma removePlayer_shape:
  "set (players (removePlayer h g r)) \<subseteq> set (players g) \<and> status (removePlayer h g r) = status g \<and>
   pieceSequence (removePlayer h g r) = pieceSequence g"
  by (auto simp: removePlayer_def split: option.splits dest: in_set_takeD in_set_dropD)

lemma handleDisconnect_wf:
  assumes "wf_manager m"
  shows "wf_manager (handleDisconnect m sock removeThrows statusThrows)"
proof -
  have room: "wf_manager (m\<lparr>games := (games m)(room \<mapsto> g')\<rparr>)"
    if "games m room = Some g" "set (players g') \<subseteq> set (players g)"
       "status g' = playing \<longrightarrow> status g = playing"
       "pieceSequence g' = pieceSequence g" for room g g'
    using wf_manager_room[OF assms that(1) _ keeps_refl that(2,3,4)] assms
    by (simp add: wf_manager_def)
  have host: "wf_manager (m\<lparr>heap := (heap m)(q := (heap m q)\<lparr>isHost := True\<rparr>),
                             games := (games m)(room \<mapsto> g')\<rparr>)"
    if "games m room = Some g" "set (players g') \<subseteq> set (players g)"
       "status g' = playing \<longrightarrow> status g = playing"
       "pieceSequence g' = pieceSequence g" for room g g' q
  proof -
    from assms have "wf_player ((heap m q)\<lparr>isHost := True\<rparr>)"
      by (simp add: wf_manager_def wf_player_def dims_inv_def)
    with assms have "\<forall>x. wf_player (((heap m)(q := (heap m q)\<lparr>isHost := True\<rparr>)) x)"
      by (simp add: wf_manager_def)
    moreover have "keeps (heap m) ((heap m)(q := (heap m q)\<lparr>isHost := True\<rparr>))"
      by (simp add: keeps_def)
    ultimately show ?thesis by (rule wf_manager_room[OF assms that(1) _ _ that(2,3,4)])
  qed
  have cl: "wf_manager x \<Longrightarrow> wf_manager (cleanUp x sock)" for x
    unfolding cleanUp_def by (rule wf_manager_maps)
  note rp = removePlayer_shape
  show ?thesis
  proof (cases "\<exists>r room g. mplayers m sock = Some r \<and> socketToRoom m sock = Some room \<and>
                  room \<noteq> [] \<and> \<not> removeThrows \<and> games m room = Some g")
    case False
    with assms cl[OF assms] show ?thesis
      by (auto simp: handleDisconnect_def split: option.splits)
  next
    case True
    then obtain r room g where
      c: "mplayers m sock = Some r" "socketToRoom m sock = Some room" "room \<noteq> []"
         "\<not> removeThrows" "games m room = Some g" by blast
    let ?g1 = "removePlayer (heap m) g r"
    from rp[of "heap m" g r] have s1: "set (players ?g1) \<subseteq> set (players g)"
      and s2: "status ?g1 = status g" and s3: "pieceSequence ?g1 = pieceSequence g" by simp_all
    have e: "wf_manager (m\<lparr>games := (games m)(room \<mapsto> endGame ?g1)\<rparr>)"
      using s1 s3 by (intro room[OF c(5)]) (simp_all add: endGame_def)
    have k: "wf_manager (m\<lparr>games := (games m)(room \<mapsto> ?g1)\<rparr>)"
      using s1 s2 s3 by (intro room[OF c(5)]) simp_all
    have h: "wf_manager (m\<lparr>heap := (heap m)(q := (heap m q)\<lparr>isHost := True\<rparr>),
                             games := (games m)(room \<mapsto> ?g1)\<rparr>)" for q
      using s1 s2 s3 by (intro host[OF c(5)]) simp_all
    have d: "wf_manager (m\<lparr>games := (games m)(room := None)\<rparr>)"
      using assms by (rule wf_manager_delete)
    from c assms e k h d cl[OF e] cl[OF k] cl[OF h] cl[OF d] show ?thesis
      by (simp add: handleDisconnect_def Let_def split: list.splits)
  qed
qed

lemma manager_movePiece_wf:
  assumes "wf_manager m"
  shows "\<exists>m'. manager_movePiece m sock d = Some m' \<and> wf_manager m'"
proof (cases "\<exists>room g r. socketToRoom m sock = Some room \<and> games m room = Some g \<and>
                 status g = playing \<and> mplayers m sock = Some r")
  case False
  with assms show ?thesis
    by (auto simp: manager_movePiece_def split: option.splits)
next
  case True
  then obtain room g r where
    c: "socketToRoom m sock = Some room" "games m room = Some g" "status g = playing"
       "mplayers m sock = Some r" by blast
  from assms have "wf_player (heap m r)" by (simp add: wf_manager_def)
  from movePiece_wf[OF this, of d] obtain p' ok where
    mv: "movePiece (heap m r) d = Some (p', ok)" "wf_player p'"
        "currentPiece (heap m r) \<noteq> None \<longrightarrow> currentPiece p' \<noteq> None" by blast
  from assms mv(2) have "\<forall>q. wf_player (((heap m)(r := p')) q)" by (simp add: wf_manager_def)
  moreover from mv(3) have "keeps (heap m) ((heap m)(r := p'))" by (rule keeps_upd)
  ultimately have "wf_manager (m\<lparr>heap := (heap m)(r := p')\<rparr>)"
    by (rule wf_manager_heap[OF assms])
  with c mv(1) show ?thesis by (simp add: manager_movePiece_def)
qed

lemma manager_rotatePiece_wf:
  assumes "wf_manager m"
  shows "\<exists>m'. manager_rotatePiece m sock = Some m' \<and> wf_manager m'"
proof (cases "\<exists>room g r. socketToRoom m sock = Some room \<and> games m room = Some g \<and>
                 status g = playing \<and> mplayers m sock = Some r")
  case False
  with assms show ?thesis
    by (auto simp: manager_rotatePiece_def split: option.splits)
next
  case True
  then obtain room g r where
    c: "socketToRoom m sock = Some room" "games m room = Some g" "status g = playing"
       "mplayers m sock = Some r" by blast
  from assms have "wf_player (heap m r)" by (simp add: wf_manager_def)
  from rotatePiece_wf[OF this] obtain p' ok where
    mv: "rotatePiece (heap m r) = Some (p', ok)" "wf_player p'"
        "currentPiece (heap m r) \<noteq> None \<longrightarrow> currentPiece p' \<noteq> None" by blast
  from assms mv(2) have "\<forall>q. wf_player (((heap m)(r := p')) q)" by (simp add: wf_manager_def)
  moreover from mv(3) have "keeps (heap m) ((heap m)(r := p'))" by (rule keeps_upd)
  ultimately have "wf_manager (m\<lparr>heap := (heap m)(r := p')\<rparr>)"
    by (rule wf_manager_heap[OF assms])
  with c mv(1) show ?thesis by (simp add: manager_rotatePiece_def)
qed

lemma manager_tick_wf:
  assumes "wf_manager m"
  shows "\<exists>m'. manager_tick m room = Some m' \<and> wf_manager m'"
proof (cases "\<exists>g. games m room = Some g \<and> liveIntervals g \<noteq> 0")
  case False
  with assms show ?thesis by (auto simp: manager_tick_def split: option.splits)
next
  case True
  then obtain g where c: "games m room = Some g" "liveIntervals g \<noteq> 0" by blast
  from assms have "\<forall>q. wf_player (heap m q)" by (simp add: wf_manager_def)
  moreover from assms c(1) have "set (pieceSequence g) \<subseteq> set pieces"
    by (simp add: wf_manager_def wf_room_def)
  ultimately obtain h' g' where
    t: "tickLoop (heap m) g (players g) = Some (h', g')" "\<forall>q. wf_player (h' q)" "keeps (heap m) h'"
       "players g' = players g" "status g' = playing \<longrightarrow> status g = playing"
       "pieceSequence g' = pieceSequence g"
    using tickLoop_wf[of "heap m" g "players g"] by blast
  from t(4) have "set (players g') \<subseteq> set (players g)" by simp
  from wf_manager_room[OF assms c(1) t(2,3) this t(5,6)] c t(1) show ?thesis
    by (simp add: manager_tick_def tick_def)
qed

lemma manager_hardDrop_wf:
  assumes "wf_manager m"
  shows "\<exists>m'. manager_hardDrop m sock = Some m' \<and> wf_manager m'"
proof (cases "\<exists>room g r. socketToRoom m sock = Some room \<and> games m room = Some g \<and>
                 status g = playing \<and> mplayers m sock = Some r")
  case False
  with assms show ?thesis
    by (auto simp: manager_hardDrop_def split: option.splits)
next
  case True
  then obtain room g r where
    c: "socketToRoom m sock = Some room" "games m room = Some g" "status g = playing"
       "mplayers m sock = Some r" by blast
  from assms have "wf_player (heap m r)" by (simp add: wf_manager_def)
  moreover from assms c(2) have "set (pieceSequence g) \<subseteq> set pieces"
    by (simp add: wf_manager_def wf_room_def)
  ultimately obtain g1 p1 res where
    hd: "hardDrop g (heap m r) = Some (g1, p1, res)" "wf_player p1"
        "currentPiece (heap m r) \<noteq> None \<longrightarrow> currentPiece p1 \<noteq> None"
        "players g1 = players g" "status g1 = status g" "pieceSequence g1 = pieceSequence g"
    using hardDrop_wf[of "heap m r" g] by blast
  let ?h1 = "(heap m)(r := p1)"
  from assms hd(2) have w1: "\<forall>q. wf_player (?h1 q)" by (simp add: wf_manager_def)
  from hd(3) have k1: "keeps (heap m) ?h1" by (rule keeps_upd)
  from hd(4) have sub1: "set (players g1) \<subseteq> set (players g)" by simp
  show ?thesis
  proof (cases res)
    case None
    with c hd(1) assms show ?thesis by (simp add: manager_hardDrop_def)
  next
    case (Some n)
    show ?thesis
    proof (cases "n > 0")
      case False
      from wf_manager_room[OF assms c(2) w1 k1 sub1 _ hd(6)] hd(5)
      have "wf_manager (m\<lparr>heap := ?h1, games := (games m)(room \<mapsto> g1)\<rparr>)" by simp
      with c hd(1) Some False show ?thesis by (simp add: manager_hardDrop_def Let_def)
    next
      case True
      from assms c(2,3) have "\<forall>q \<in> set (players g). currentPiece (heap m q) \<noteq> None"
        by (simp add: wf_manager_def wf_room_def)
      with k1 hd(4) have all: "\<forall>q \<in> set (players g1). currentPiece (?h1 q) \<noteq> None"
        unfolding keeps_def by simp
      from penaltyLoop_wf[OF w1 all, of g1 r "n - 1"] obtain h2 g2 where
        p: "penaltyLoop ?h1 g1 r (n - 1) (players g1) = Some (h2, g2)" "\<forall>q. wf_player (h2 q)"
           "keeps ?h1 h2" "players g2 = players g1" "status g2 = playing \<longrightarrow> status g1 = playing"
           "pieceSequence g2 = pieceSequence g1"
        by blast
      from p(4) hd(4) have sub2: "set (players g2) \<subseteq> set (players g)" by simp
      from p(5) hd(5) have st2: "status g2 = playing \<longrightarrow> status g = playing" by simp
      from p(6) hd(6) have sq2: "pieceSequence g2 = pieceSequence g" by simp
      from wf_manager_room[OF assms c(2) p(2) keeps_trans[OF k1 p(3)] sub2 st2 sq2]
      have "wf_manager (m\<lparr>heap := h2, games := (games m)(room \<mapsto> g2)\<rparr>)" .
      with c hd(1) Some True p(1) show ?thesis
        by (simp add: manager_hardDrop_def Let_def addPenaltyLinesToOthers_def)
    qed
  qed
qed

lemma step_wf:
  assumes "wf_manager m"
  shows "\<exists>m'. step m e = Some m' \<and> wf_manager m'"
proof (cases e)
  case (JoinGame sock room playerName db)
  with joinGame_wf[OF assms] show ?thesis by simp
next
  case (StartGame sock room sortRandom statusThrows)
  with startGame_wf[OF assms] show ?thesis by simp
next
  case (MovePiece sock d)
  with manager_movePiece_wf[OF assms] show ?thesis by simp
next
  case (RotatePiece sock)
  with manager_rotatePiece_wf[OF assms] show ?thesis by simp
next
  case (HardDrop sock)
  with manager_hardDrop_wf[OF assms] show ?thesis by simp
next
  case (Disconnect sock removeThrows statusThrows)
  with handleDisconnect_wf[OF assms] show ?thesis by simp
next
  case (Tick room)
  with manager_tick_wf[OF assms] show ?thesis by simp
qed

lemma run_wf:
  "wf_manager m \<Longrightarrow> \<exists>m'. run m es = Some m' \<and> wf_manager m'"
proof (induction es arbitrary: m)
  case Nil
  then show ?case by simp
next
  case (Cons e es)
  from step_wf[OF Cons.prems, of e] obtain m1 where "step m e = Some m1" "wf_manager m1" by blast
  with Cons.IH[of m1] show ?case by simp
qed

lemma server_never_raises: "\<exists>m. run GameManager es = Some m"
  using run_wf[OF wf_manager_init, of es] by blast

text \<open>
  A join that began before the start of its room and ends after it adds a player
  without a board to the playing room. The interval callback passes such a player
  by, but the next penalty, even of no line, reads the length of its \<open>null\<close> board:
  a TypeError.
\<close>

lemma penalty_after_late_join:
  "\<not> Option.is_none
      (calls (heap GameManager)
         [NewPlayer 0 ''a'' ''alice'' ''r'' True, NewPlayer 1 ''b'' ''bob'' ''r'' False,
          CallStart bag arena, NewPlayer 2 ''c'' ''carol'' ''r'' False,
          CallInterval (arenaStarted\<lparr>players := [0, 1, 2]\<rparr>)]) \<and>
   Option.is_none
      (calls (heap GameManager)
         [NewPlayer 0 ''a'' ''alice'' ''r'' True, NewPlayer 1 ''b'' ''bob'' ''r'' False,
          CallStart bag arena, NewPlayer 2 ''c'' ''carol'' ''r'' False,
          CallAddPenaltyLines (arenaStarted\<lparr>players := [0, 1, 2]\<rparr>) 0 0])"
  by code_simp

section \<open>Pieces of an unknown kind\<close>

text \<open>
  A kind that is neither an own key of \<open>shapes\<close> nor a key inherited from
  \<open>Object.prototype\<close> gets the I matrix. The generated sequence has 70 kinds, so from
  index 70 on \<open>spawnNewPiece\<close> constructs the next piece from \<open>undefined\<close>: its kind
  is \<open>undefined\<close>, its shape that of I, and with the following spawn it becomes the
  current piece.
\<close>

lemma Piece_unknown_kind:
  assumes "t \<notin> set pieces" and "map_of objectPrototype (propertyKey t) = None"
  shows "ptype (Piece t) = t \<and>
         shape (Piece t) = Matrix [[0, 0, 0, 0], [1, 1, 1, 1], [0, 0, 0, 0], [0, 0, 0, 0]]"
proof -
  from assms(1) have "map_of ownShapes (propertyKey t) = None"
    by (cases t) (auto simp: pieces_def ownShapes_def)
  with assms(2) show ?thesis
    by (simp add: Piece_def getShape_def shapes_def)
qed

lemma Piece_own_kind:
  "map_of ownShapes (propertyKey t) = Some s \<Longrightarrow> shape (Piece t) = Matrix s"
  by (simp add: Piece_def getShape_def shapes_def)

lemma Piece_inherited_kind:
  assumes "map_of objectPrototype (propertyKey t) = Some l"
  shows "ptype (Piece t) = t \<and> shape (Piece t) = Inherited (propertyKey t)"
proof -
  have "map_of ownShapes k = None" if "map_of objectPrototype k = Some l" for k
    using that by (auto simp: ownShapes_def objectPrototype_def split: if_splits)
  from this[OF assms] assms show ?thesis
    by (simp add: Piece_def getShape_def shapes_def)
qed

lemma spawn_after_exhaustion:
  assumes "pieceSequence g = generatePieceSequence sortRandom" and "69 \<le> currentPieceIndex g"
    and "spawnNewPiece g p = Some (g1, p1)"
  shows "nextPiece p1 = Some (Piece Undefined) \<and>
         (\<forall>g2 p2. spawnNewPiece g1 p1 = Some (g2, p2) \<longrightarrow>
                   currentPiece p2 = Some (Piece Undefined) \<and> nextPiece p2 = Some (Piece Undefined))"
  using assms length_generatePieceSequence[of sortRandom]
  by (auto simp: spawnNewPiece_def Let_def seqAt_def Piece_def split: option.splits)

section \<open>The claims\<close>

text \<open>
  C1. The claim: the piece stream is a function of the room's seed, and two players of
  a room get the same kind at each stream index, whatever their order and rate of
  consumption. The code keeps one \<open>currentPieceIndex\<close> per room, which every
  spawn of every player advances. With \<open>a\<close> and \<open>b\<close> in one room, both begin with
  O and, after one hard drop each, hold I as their second piece; but the third piece
  of \<open>a\<close>, who dropped first, is I (index 1 again) and the third piece of \<open>b\<close> is L
  (index 2).
\<close>

theorem shared_piece_index_diverges:
  "map_option ptype (Option.bind (playerAfter lobbyStart 0) currentPiece) = Some TO \<and>
   map_option ptype (Option.bind (playerAfter lobbyStart 1) currentPiece) = Some TO \<and>
   map_option ptype (Option.bind (playerAfter (lobbyStart @ [HardDrop ''a'', HardDrop ''b'']) 0) currentPiece) = Some TI \<and>
   map_option ptype (Option.bind (playerAfter (lobbyStart @ [HardDrop ''a'', HardDrop ''b'']) 1) currentPiece) = Some TI \<and>
   map_option ptype (Option.bind (playerAfter (lobbyStart @ [HardDrop ''a'', HardDrop ''b'']) 0) nextPiece) = Some TI \<and>
   map_option ptype (Option.bind (playerAfter (lobbyStart @ [HardDrop ''a'', HardDrop ''b'']) 1) nextPiece) = Some TL"
  by code_simp

text \<open>
  C2. The claim: ClearLines never sets a cell tagged X to empty. In the code a penalty
  row is ten 'X' and \<open>isLineFull\<close> only tests for cells that are not 0. After \<open>a\<close>
  has cleared two lines by a hard drop, the bottom row of \<open>b\<close> is the penalty row;
  \<open>clearLines\<close> on \<open>b\<close> removes it, counts one cleared line and leaves the empty
  board; and once \<open>b\<close> has dropped its piece, its board holds no X and its score
  is 100. The same on the empty board with one penalty row pushed.
\<close>

theorem clearLines_removes_penalty_row:
  "map_option (map_prod board id) (clearLines (bob\<lparr>board := Some (pushPenalty createEmptyBoard 1)\<rparr>))
     = Some (Some createEmptyBoard, 1) \<and>
   map_option last (Option.bind (playerAfter (lobbyStart @ aliceStack @ [HardDrop ''a'']) 1) board)
     = Some (replicate 10 (Tag TX)) \<and>
   map_option (map_prod board id) (Option.bind (playerAfter (lobbyStart @ aliceStack @ [HardDrop ''a'']) 1) clearLines)
     = Some (Some createEmptyBoard, 1) \<and>
   map_option noPenaltyCell (Option.bind (playerAfter (lobbyStart @ aliceStack @ [HardDrop ''a'', HardDrop ''b'']) 1) board)
     = Some True \<and>
   map_option score (playerAfter (lobbyStart @ aliceStack @ [HardDrop ''a'', HardDrop ''b'']) 1) = Some 100"
  by code_simp

text \<open>
  C3, as amended. A penalty row that \<open>addPenaltyLinesToOthers\<close> injects consists of
  ten cells of kind X, none empty: for every living opponent with a board of 20 rows,
  the \<open>n\<close> rows at the top are discarded and the board ends with the penalty rows
  (20 of them at most).
\<close>

theorem penalty_rows_are_ten_X:
  assumes "addPenaltyLinesToOthers h g c n = Some (h', g')"
    and "distinct (players g)"
    and "r \<in> set (players g)"
    and "pid (h r) \<noteq> pid (h c)"
    and "isAlive (h r)"
    and "board (h r) = Some b"
    and "length b = 20"
  shows "board (h' r) = Some (drop n b @ replicate (min n 20) (replicate 10 (Tag TX)))"
  using penaltyLoop_board[OF assms(1)[unfolded addPenaltyLinesToOthers_def] assms(2), of r] assms(3-)
  by (simp add: pushPenalty_20)

theorem penalty_rows_are_ten_X_witness:
  "\<exists>h' g'. addPenaltyLinesToOthers twoPlayers arena 0 2 = Some (h', g') \<and>
           board (h' 1) = Some (replicate 18 (replicate 10 Zero) @ replicate 2 (replicate 10 (Tag TX)))"
proof -
  have "\<not> Option.is_none (addPenaltyLinesToOthers twoPlayers arena 0 2)"
    by code_simp
  then obtain h' g' where a: "addPenaltyLinesToOthers twoPlayers arena 0 2 = Some (h', g')"
    by (cases "addPenaltyLinesToOthers twoPlayers arena 0 2") auto
  have "board (h' 1) = Some (drop 2 createEmptyBoard @ replicate (min 2 20) (replicate 10 (Tag TX)))"
    by (rule penalty_rows_are_ten_X[OF a])
       (simp_all add: arena_def Game_def twoPlayers_def alice_def bob_def Player_def createEmptyBoard_def)
  then have "board (h' 1) = Some (replicate 18 (replicate 10 Zero) @ replicate 2 (replicate 10 (Tag TX)))"
    by (simp add: createEmptyBoard_def)
  with a show ?thesis by blast
qed

text \<open>
  The claim as stated, nine X and one empty cell, fails: one penalty line handed to
  \<open>bob\<close> is a bottom row of ten X; and after \<open>a\<close> has cleared two lines by a hard
  drop, the row injected at the bottom of the board of \<open>b\<close> is ten X, a row that
  \<open>isLineFull\<close> takes for full.
\<close>

theorem penalty_row_has_no_gap:
  "map_option last (penalised 1)
     = Some [Tag TX, Tag TX, Tag TX, Tag TX, Tag TX, Tag TX, Tag TX, Tag TX, Tag TX, Tag TX] \<and>
   map_option linesCleared (playerAfter (lobbyStart @ aliceStack @ [HardDrop ''a'']) 0) = Some 2 \<and>
   map_option last (Option.bind (playerAfter (lobbyStart @ aliceStack @ [HardDrop ''a'']) 1) board)
     = Some [Tag TX, Tag TX, Tag TX, Tag TX, Tag TX, Tag TX, Tag TX, Tag TX, Tag TX, Tag TX] \<and>
   isLineFull [Tag TX, Tag TX, Tag TX, Tag TX, Tag TX, Tag TX, Tag TX, Tag TX, Tag TX, Tag TX]"
  by code_simp

text \<open>
  C4. The claim: when a piece locks in the gravity step and two or more lines are
  cleared, the other living players get penalty rows. \<open>dropPiece\<close> discards the
  result of \<open>clearLines\<close>; only the manager's \<open>hardDrop\<close> calls
  \<open>addPenaltyLinesToOthers\<close>. The gravity step for \<open>alice\<close>, whose O rests over the
  two open columns, clears two lines and leaves the empty board of \<open>bob\<close> as it is.
  And in the game: with the J of \<open>a\<close> held over the gap, seventeen ticks lower it and
  the eighteenth locks it; \<open>a\<close> has cleared two lines, and the board of \<open>b\<close>, who is
  alive, is still the empty board.
\<close>

theorem gravity_lock_sends_no_penalty:
  "map_option linesCleared (afterGravity 0) = Some 2 \<and>
   map_option isAlive (afterGravity 1) = Some True \<and>
   Option.bind (afterGravity 1) board = Some createEmptyBoard \<and>
   map_option linesCleared (playerAfter (lobbyStart @ aliceStack @ replicate 17 (Tick ''r'')) 0) = Some 0 \<and>
   map_option linesCleared (playerAfter (lobbyStart @ aliceStack @ replicate 18 (Tick ''r'')) 0) = Some 2 \<and>
   map_option isAlive (playerAfter (lobbyStart @ aliceStack @ replicate 18 (Tick ''r'')) 1) = Some True \<and>
   Option.bind (playerAfter (lobbyStart @ aliceStack @ replicate 18 (Tick ''r'')) 1) board = Some createEmptyBoard"
  by code_simp

text \<open>
  C5. The claim: a hard drop ends with the lock, clear, spawn and topout sequence of
  the gravity step, so a player whose new piece does not fit at (3, 0) becomes dead
  and the game-end check runs. \<open>hardDrop\<close> has no such check. After eleven hard
  drops of \<open>a\<close> the new piece does not fit, yet \<open>a\<close> is alive and the room is
  playing; the next tick is what kills \<open>a\<close> and ends the game.
\<close>

theorem hardDrop_skips_topout:
  "Option.bind (playerAfter (lobbyStart @ replicate 11 (HardDrop ''a'')) 0) canSpawnPiece = Some False \<and>
   map_option isAlive (playerAfter (lobbyStart @ replicate 11 (HardDrop ''a'')) 0) = Some True \<and>
   map_option status (roomAfter (lobbyStart @ replicate 11 (HardDrop ''a'')) ''r'') = Some playing \<and>
   map_option isAlive (playerAfter (lobbyStart @ replicate 11 (HardDrop ''a'') @ [Tick ''r'']) 0) = Some False \<and>
   map_option status (roomAfter (lobbyStart @ replicate 11 (HardDrop ''a'') @ [Tick ''r'']) ''r'') = Some finished"
  by code_simp

text \<open>
  C6. The claim: a room that is not empty has exactly one host, and when the host
  leaves, in any phase, the first remaining player is promoted. \<open>handleDisconnect\<close>
  promotes only in the branch for a room that is playing and keeps two players or
  more. When host \<open>a\<close> leaves the waiting room, \<open>b\<close> remains and is not host, so
  its start is refused; when \<open>a\<close> leaves the game of two, \<open>b\<close> remains and is not
  host either. With a third player \<open>c\<close> in the game, \<open>b\<close> is promoted.
\<close>

theorem host_leaves_waiting_room:
  "map_option isHost (playerAfter lobby 0) = Some True \<and>
   map_option players (roomAfter (lobby @ [Disconnect ''a'' False False]) ''r'') = Some [1] \<and>
   map_option status (roomAfter (lobby @ [Disconnect ''a'' False False]) ''r'') = Some waiting \<and>
   map_option isHost (playerAfter (lobby @ [Disconnect ''a'' False False]) 1) = Some False \<and>
   startAfter (lobby @ [Disconnect ''a'' False False]) ''b'' ''r''
     = Some (Error ''Only the host can start the game'') \<and>
   map_option players (roomAfter (lobbyStart @ [Disconnect ''a'' False False]) ''r'') = Some [1] \<and>
   map_option isHost (playerAfter (lobbyStart @ [Disconnect ''a'' False False]) 1) = Some False \<and>
   map_option isHost
     (playerAfter (lobby @ [JoinGame ''c'' ''r'' ''carol'' dbOk, StartGame ''a'' ''r'' bag False,
                            Disconnect ''a'' False False]) 1) = Some True"
  by code_simp




text \<open>
  C8. Every board has exactly 20 rows of exactly 10 cells. From a store in which
  every board that is not \<open>null\<close> has these dimensions, as in the store of the new
  manager, any list of calls that returns leaves every board that is not \<open>null\<close>
  with these dimensions. After \<open>start\<close>, every player of the room has the empty
  board of these dimensions; and \<open>lockPiece\<close>, \<open>clearLines\<close> and the injection of
  penalty rows, on a board of these dimensions, return a board of these dimensions
  (\<open>lockPiece\<close> for a current piece over whose shape its loops can run, as they can
  over every matrix).
\<close>

theorem board_dimensions:
  "((\<forall>q b0. board (h0 q) = Some b0 \<longrightarrow>
            length b0 = 20 \<and> (\<forall>line \<in> set b0. length line = 10)) \<and>
    calls h0 cs = Some h1 \<and> board (h1 r1) = Some b1 \<longrightarrow>
      length b1 = 20 \<and> (\<forall>line \<in> set b1. length line = 10)) \<and>
   (\<forall>q. board (heap GameManager q) = None) \<and>
   (r \<in> set (players g) \<longrightarrow>
      board (fst (start sortRandom h g) r) = Some createEmptyBoard \<and>
      length createEmptyBoard = 20 \<and> (\<forall>line \<in> set createEmptyBoard. length line = 10)) \<and>
   (board p = Some b \<and> board_ok b \<and> currentPiece p = Some pc \<and> cellsOf (shape pc) \<noteq> None \<longrightarrow>
      (\<exists>p' b'. lockPiece p = Some p' \<and> board p' = Some b' \<and> board_ok b')) \<and>
   (board p = Some b \<and> board_ok b \<longrightarrow>
      (\<exists>p' k b'. clearLines p = Some (p', k) \<and> board p' = Some b' \<and> board_ok b')) \<and>
   (board_ok b \<longrightarrow> board_ok (pushPenalty b n))"
proof (intro conjI impI allI)
  assume a: "(\<forall>q b0. board (h0 q) = Some b0 \<longrightarrow>
            length b0 = 20 \<and> (\<forall>line \<in> set b0. length line = 10)) \<and>
    calls h0 cs = Some h1 \<and> board (h1 r1) = Some b1"
  then have "\<forall>q. dims_inv (h0 q)"
    by (auto simp: dims_inv_def board_ok_def split: option.splits)
  from calls_preserves[OF preserved_dims_inv this, of cs h1] a have "dims_inv (h1 r1)"
    by simp
  with a have ok: "board_ok b1" by (simp add: dims_inv_def)
  from ok show "length b1 = 20" by (simp add: board_ok_def)
  from ok show "\<forall>line \<in> set b1. length line = 10" by (simp add: board_ok_def)
next
  fix q
  show "board (heap GameManager q) = None" by (simp add: GameManager_def Player_def)
next
  assume "r \<in> set (players g)"
  then show "board (fst (start sortRandom h g) r) = Some createEmptyBoard"
    by (simp add: start_heap deal_def)
next
  show "length createEmptyBoard = 20" by (simp add: createEmptyBoard_def)
next
  show "\<forall>line \<in> set createEmptyBoard. length line = 10" by (simp add: createEmptyBoard_def)
next
  assume a: "board p = Some b \<and> board_ok b \<and> currentPiece p = Some pc \<and> cellsOf (shape pc) \<noteq> None"
  then obtain cs where cs: "cellsOf (shape pc) = Some cs" by auto
  from a lockLoop_total[of p b pc cs] obtain p' where
    l: "lockLoop p pc cs = Some p'" by auto
  from a have "dims_inv p" by (simp add: dims_inv_def)
  from lockLoop_dims[OF this l] have d: "dims_inv p'" .
  have keep: "lockLoop q pc cs = Some q' \<Longrightarrow> board q \<noteq> None \<Longrightarrow> board q' \<noteq> None" for q q' cs
    by (induction cs arbitrary: q) (auto simp: Let_def split: option.splits if_splits)
  from keep[OF l] a obtain b' where "board p' = Some b'" by auto
  with d l a cs show "\<exists>p' b'. lockPiece p = Some p' \<and> board p' = Some b' \<and> board_ok b'"
    by (auto simp: dims_inv_def lockPiece_def)
next
  assume a: "board p = Some b \<and> board_ok b"
  from clearLinesLoop_ok[of b 19 0] a obtain b' k where
    "clearLinesLoop b 19 0 = Some (b', k)" "board_ok b'" by auto
  with a show "\<exists>p' k b'. clearLines p = Some (p', k) \<and> board p' = Some b' \<and> board_ok b'"
    by (auto simp: clearLines_def)
next
  assume "board_ok b"
  then show "board_ok (pushPenalty b n)" by (rule pushPenalty_ok)
qed

theorem board_dimensions_witness:
  "(\<exists>h1 b1. calls (heap GameManager) lateJoin = Some h1 \<and> board (h1 2) = None \<and>
            board (h1 1) = Some b1 \<and> length b1 = 20 \<and> (\<forall>line \<in> set b1. length line = 10)) \<and>
   board (fst (start bag twoPlayers arena) 1) = Some createEmptyBoard \<and>
   (\<exists>p' b'. lockPiece bob = Some p' \<and> board p' = Some b' \<and> board_ok b') \<and>
   (\<exists>p' k b'. clearLines bob = Some (p', k) \<and> board p' = Some b' \<and> board_ok b') \<and>
   board_ok (pushPenalty createEmptyBoard 3)"
proof -
  have late: "boardAfter lateJoin 2 = Some None"
    and dealt: "map_option Option.is_none (boardAfter lateJoin 1) = Some False"
    by code_simp+
  from late obtain h1 where h1: "calls (heap GameManager) lateJoin = Some h1" "board (h1 2) = None"
    by (auto simp: boardAfter_def)
  with dealt obtain b1 where b1: "board (h1 1) = Some b1"
    by (cases "board (h1 1)") (auto simp: boardAfter_def)
  have h0: "\<forall>q b0. board (heap GameManager q) = Some b0 \<longrightarrow>
            length b0 = 20 \<and> (\<forall>line \<in> set b0. length line = 10)"
    by (simp add: GameManager_def Player_def)
  have ok: "board_ok createEmptyBoard"
    by (simp add: board_ok_def createEmptyBoard_def)
  have bb: "board bob = Some createEmptyBoard" "currentPiece bob = Some (Piece TO)"
    "cellsOf (shape (Piece TO)) \<noteq> None" "1 \<in> set (players arena)"
    by (simp_all add: bob_def arena_def Piece_def getShape_def shapes_def ownShapes_def cellsOf_def)
  from board_dimensions[of "heap GameManager" lateJoin h1 1 b1] h0 h1(1) b1
  have 1: "length b1 = 20 \<and> (\<forall>line \<in> set b1. length line = 10)" by blast
  from board_dimensions[of _ _ _ _ _ 1 arena bag twoPlayers bob createEmptyBoard "Piece TO" 3] ok bb
  have 2: "board (fst (start bag twoPlayers arena) 1) = Some createEmptyBoard"
    and 3: "\<exists>p' b'. lockPiece bob = Some p' \<and> board p' = Some b' \<and> board_ok b'"
    and 4: "\<exists>p' k b'. clearLines bob = Some (p', k) \<and> board p' = Some b' \<and> board_ok b'"
    and 5: "board_ok (pushPenalty createEmptyBoard 3)"
    by blast+
  from h1 b1 1 2 3 4 5 show ?thesis by blast
qed

text \<open>
  C9. The server handles every list of events, and in the state it reaches every
  player's score is 100 times its \<open>linesCleared\<close>: \<open>start\<close> sets both to 0 for
  every player of the room, locking a piece changes neither, and \<open>clearLines\<close>, when
  it clears \<open>k\<close> lines, adds \<open>100 * k\<close> to the score and \<open>k\<close> to \<open>linesCleared\<close>.
\<close>

theorem score_is_100_times_lines:
  "(\<exists>m. run GameManager es = Some m \<and>
        (\<forall>r. score (heap m r) = 100 * linesCleared (heap m r))) \<and>
   (r \<in> set (players g) \<longrightarrow>
      score (fst (start sortRandom h g) r) = 0 \<and> linesCleared (fst (start sortRandom h g) r) = 0) \<and>
   (lockPiece p = Some p1 \<longrightarrow> score p1 = score p \<and> linesCleared p1 = linesCleared p) \<and>
   (clearLines p = Some (p2, k) \<longrightarrow>
      score p2 = score p + 100 * k \<and> linesCleared p2 = linesCleared p + k)"
proof (intro conjI impI)
  from server_never_raises[of es] obtain m where m: "run GameManager es = Some m" by blast
  from reachable_preserves[OF preserved_score_inv m]
  have "\<forall>r. score (heap m r) = 100 * linesCleared (heap m r)" by (simp add: score_inv_def)
  with m show "\<exists>m. run GameManager es = Some m \<and>
        (\<forall>r. score (heap m r) = 100 * linesCleared (heap m r))" by blast
next
  assume "r \<in> set (players g)"
  then show "score (fst (start sortRandom h g) r) = 0"
    and "linesCleared (fst (start sortRandom h g) r) = 0"
    by (simp_all add: start_heap deal_def)
next
  assume "lockPiece p = Some p1"
  then obtain bo where "p1 = p\<lparr>board := bo\<rparr>"
    by (auto simp: lockPiece_def split: option.splits dest: lockLoop_shape)
  then show "score p1 = score p" and "linesCleared p1 = linesCleared p" by simp_all
next
  assume "clearLines p = Some (p2, k)"
  then show "score p2 = score p + 100 * k" and "linesCleared p2 = linesCleared p + k"
    by (auto simp: clearLines_def split: option.splits if_splits)
qed

theorem score_is_100_times_lines_witness:
  "(\<exists>m. run GameManager (lobbyStart @ aliceStack @ [HardDrop ''a'']) = Some m \<and>
        linesCleared (heap m 0) = 2 \<and> score (heap m 0) = 200) \<and>
   score (fst (start bag twoPlayers arena) 1) = 0 \<and>
   linesCleared (fst (start bag twoPlayers arena) 1) = 0 \<and>
   (\<exists>p1. lockPiece bob = Some p1 \<and> score p1 = score bob \<and> linesCleared p1 = linesCleared bob) \<and>
   (\<exists>p2. clearLines (bob\<lparr>board := Some (pushPenalty createEmptyBoard 1)\<rparr>) = Some (p2, 1) \<and>
         score p2 = 100 \<and> linesCleared p2 = 1)"
proof -
  let ?es = "lobbyStart @ aliceStack @ [HardDrop ''a'']"
  let ?q = "bob\<lparr>board := Some (pushPenalty createEmptyBoard 1)\<rparr>"
  have lc: "map_option linesCleared (playerAfter ?es 0) = Some 2"
    by code_simp
  have "\<not> Option.is_none (lockPiece bob)" by code_simp
  then obtain p1 where l: "lockPiece bob = Some p1" by (cases "lockPiece bob") auto
  have "map_option snd (clearLines ?q) = Some 1" by code_simp
  then obtain p2 where c: "clearLines ?q = Some (p2, 1)" by (cases "clearLines ?q") auto
  have s: "1 \<in> set (players arena)" "score ?q = 0" "linesCleared ?q = 0"
    by (simp_all add: arena_def bob_def Player_def)
  from score_is_100_times_lines[of ?es] obtain m where
    m: "run GameManager ?es = Some m" "\<forall>r. score (heap m r) = 100 * linesCleared (heap m r)"
    by blast
  from lc m(1) have 0: "linesCleared (heap m 0) = 2" by (simp add: playerAfter_def)
  with m(2) have 1: "score (heap m 0) = 200" by simp
  from score_is_100_times_lines[of _ 1 arena bag twoPlayers bob p1] l s
  have 2: "score (fst (start bag twoPlayers arena) 1) = 0"
    and 3: "linesCleared (fst (start bag twoPlayers arena) 1) = 0"
    and 4: "score p1 = score bob \<and> linesCleared p1 = linesCleared bob" by blast+
  from score_is_100_times_lines[of _ _ _ _ _ ?q _ p2 1] c s
  have 5: "score p2 = 100 \<and> linesCleared p2 = 1" by simp
  from m(1) 0 1 2 3 4 5 l c show ?thesis by blast
qed


end
